theory Spec2Isabelle
  imports Complex_Main "HOL-Library.Sublist"
begin

unbundle bit_operations_syntax

section \<open>Values\<close>

text \<open>
  A DOM element is known by its identity only. A JavaScript \<open>number\<close> is taken as a real
  number (no NaN, no infinities), and \<open>None\<close> is \<open>undefined\<close>: on such values the strict
  comparison \<open>!==\<close> of the sources is HOL's \<open>\<noteq>\<close>. Names are those of the
  sources; the underscore that ends the name of a private member is written as a prime.
\<close>

type_synonym element = nat

type_synonym number = real

text \<open>\<open>DOMRectInit\<close> of the DOM typings: all four members are optional.\<close>

record DOMRectInit =
  rect_x :: "number option"
  rect_y :: "number option"
  width :: "number option"
  height :: "number option"

record DOMRectReadOnly =
  ro_x :: "number option"
  ro_y :: "number option"
  ro_width :: "number option"
  ro_height :: "number option"
  ro_top :: "number option"
  ro_right :: "number option"
  ro_bottom :: "number option"
  ro_left :: "number option"

text \<open>
  What the sources import from files that are not at hand (\<open>utils/isBrowser\<close>,
  \<open>utils/geometry\<close>) and the module-level constants that probe the host are parameters
  of the model. \<open>getContentRect\<close>, the third import, depends on the layout of the page at
  the time of the call and is a field of the state below. Outside a browser
  \<open>origAttachShadow\<close> is \<open>null\<close>: the sources test \<open>isBrowser\<close> first.
\<close>

record env =
  isBrowser :: bool
  mutationObserverSupported :: bool
  origAttachShadow :: bool
  elementInterface :: bool
  createRectInit :: "number \<Rightarrow> number \<Rightarrow> number \<Rightarrow> number \<Rightarrow> DOMRectInit"
  createReadOnlyRect :: "DOMRectInit \<Rightarrow> DOMRectReadOnly"

section \<open>Arrays, the Map shim, strings\<close>

text \<open>
  \<open>Array.prototype.indexOf\<close>: the first index holding the value, or \<open>-1\<close>. The sources
  test its result with \<open>~\<close>, which is \<open>NOT\<close> on integers: \<open>~i\<close> is zero (falsy) exactly
  for \<open>i = -1\<close>.
\<close>

fun indexOf_from :: "nat \<Rightarrow> 'a list \<Rightarrow> 'a \<Rightarrow> int" where
  "indexOf_from i [] v = - 1"
| "indexOf_from i (x # xs) v = (if x = v then int i else indexOf_from (Suc i) xs v)"

definition indexOf :: "'a list \<Rightarrow> 'a \<Rightarrow> int" where
  "indexOf xs v = indexOf_from 0 xs v"

text \<open>\<open>arr.splice(index, 1)\<close> and \<open>arr.splice(0)\<close>, as the array that is left.\<close>

definition splice1 :: "nat \<Rightarrow> 'a list \<Rightarrow> 'a list" where
  "splice1 index xs = take index xs @ drop (Suc index) xs"

definition splice_all :: "'a list \<Rightarrow> 'a list" where
  "splice_all xs = take 0 xs"

text \<open>
  The Map of \<open>shims/es6-collections\<close>: an array of entries in insertion order, keys
  compared by identity. (The native \<open>Map\<close>, used when the host has one, agrees with it
  on every method used here.)
\<close>

type_synonym ('k, 'v) MapShim = "('k \<times> 'v) list"

fun getIndex_from :: "nat \<Rightarrow> ('k, 'v) MapShim \<Rightarrow> 'k \<Rightarrow> int" where
  "getIndex_from i [] key = - 1"
| "getIndex_from i (entry # arr) key =
     (if fst entry = key then int i else getIndex_from (Suc i) arr key)"

definition getIndex :: "('k, 'v) MapShim \<Rightarrow> 'k \<Rightarrow> int" where
  "getIndex arr key = getIndex_from 0 arr key"

definition Map_size :: "('k, 'v) MapShim \<Rightarrow> nat" where
  "Map_size entries = length entries"

definition Map_has :: "('k, 'v) MapShim \<Rightarrow> 'k \<Rightarrow> bool" where
  "Map_has entries key = (NOT (getIndex entries key) \<noteq> 0)"

definition Map_set :: "('k, 'v) MapShim \<Rightarrow> 'k \<Rightarrow> 'v \<Rightarrow> ('k, 'v) MapShim" where
  "Map_set entries key val =
     (let index = getIndex entries key
      in if NOT index \<noteq> 0 then entries[nat index := (key, val)]
         else entries @ [(key, val)])"

definition Map_delete :: "('k, 'v) MapShim \<Rightarrow> 'k \<Rightarrow> ('k, 'v) MapShim" where
  "Map_delete entries key =
     (let index = getIndex entries key
      in if NOT index \<noteq> 0 then splice1 (nat index) entries else entries)"

definition Map_clear :: "('k, 'v) MapShim \<Rightarrow> ('k, 'v) MapShim" where
  "Map_clear entries = splice_all entries"

text \<open>\<open>String.prototype.indexOf\<close>: where the key first occurs in the string, or \<open>-1\<close>.\<close>

fun str_indexOf_from :: "nat \<Rightarrow> string \<Rightarrow> string \<Rightarrow> int" where
  "str_indexOf_from i [] key = (if key = [] then int i else - 1)"
| "str_indexOf_from i (c # s) key =
     (if prefix key (c # s) then int i else str_indexOf_from (Suc i) s key)"

definition str_indexOf :: "string \<Rightarrow> string \<Rightarrow> int" where
  "str_indexOf s key = str_indexOf_from 0 s key"

section \<open>ResizeObservation\<close>

record ResizeObservation =
  target :: element
  broadcastWidth :: "number option"
  broadcastHeight :: "number option"
  contentRect' :: DOMRectInit

definition new_ResizeObservation :: "env \<Rightarrow> element \<Rightarrow> ResizeObservation" where
  "new_ResizeObservation env tgt =
     \<lparr>target = tgt, broadcastWidth = Some 0, broadcastHeight = Some 0,
      contentRect' = createRectInit env 0 0 0 0\<rparr>"

text \<open>
  A method takes the object and returns its result with the object as the method leaves
  it. \<open>isActive\<close> reads the page through \<open>getContentRect\<close>.
\<close>

definition isActive ::
  "(element \<Rightarrow> DOMRectInit) \<Rightarrow> ResizeObservation \<Rightarrow> bool \<times> ResizeObservation" where
  "isActive getContentRect this =
     (let rect = getContentRect (target this);
          this1 = this\<lparr>contentRect' := rect\<rparr>
      in (width rect \<noteq> broadcastWidth this1 \<or> height rect \<noteq> broadcastHeight this1, this1))"

definition broadcastRect :: "ResizeObservation \<Rightarrow> DOMRectInit \<times> ResizeObservation" where
  "broadcastRect this =
     (let rect = contentRect' this;
          this1 = this\<lparr>broadcastWidth := width rect\<rparr>;
          this2 = this1\<lparr>broadcastHeight := height rect\<rparr>
      in (rect, this2))"

section \<open>ResizeObserverEntry\<close>

record ResizeObserverEntry =
  entry_target :: element
  contentRect :: DOMRectReadOnly

definition new_ResizeObserverEntry :: "env \<Rightarrow> element \<Rightarrow> DOMRectInit \<Rightarrow> ResizeObserverEntry" where
  "new_ResizeObserverEntry env tgt rectInit =
     \<lparr>entry_target = tgt, contentRect = createReadOnlyRect env rectInit\<rparr>"

section \<open>The state: objects, the controller, the host\<close>

type_synonym obs_ref = nat

type_synonym spi_ref = nat

text \<open>
  A ResizeObserverSPI holds references to its ResizeObservation objects, in the registry
  and in the list of active observations alike; the objects live in a heap. The callback
  is known by a number, its code is a parameter of the model. \<open>controller'\<close> is always the
  one controller of \<open>ResizeObserverController.getInstance()\<close> (ResizeObserver.ts), which
  is a field of the state.
\<close>

record ResizeObserverSPI =
  activeObservations' :: "obs_ref list"
  callback' :: nat
  callbackCtx' :: nat
  observations' :: "(element, obs_ref) MapShim"

text \<open>
  The listeners handed to the host are the bound \<open>onTransitionEnd'\<close> and \<open>this.refresh\<close>.
  The constructor replaces the instance's \<open>refresh\<close> by
  \<open>throttle(this.refresh.bind(this), REFRESH_DELAY)\<close>; an own property shadows the method
  of the prototype, so every \<open>this.refresh\<close> and \<open>this.controller'.refresh\<close> of the sources
  is that wrapper.
\<close>

datatype listener = OnTransitionEnd | ThrottledRefresh

text \<open>
  The part of the document that \<open>connect'\<close> walks: a node with its shadow root, if any,
  and its element children in sibling order.
\<close>

datatype dnode = DNode (node_id: nat) (shadowRoot: "dnode option") (elementChildren: "dnode list")

text \<open>
  The host keeps, as a browser does, the listeners registered on \<open>document\<close> and on
  \<open>window\<close> (a listener registered twice for the same event is kept once), for each
  MutationObserver the nodes it observes (\<open>mutation_observed\<close>: pairs of an observer and
  a node), and which function \<open>HTMLElement.prototype.attachShadow\<close> is.
  \<open>mutation_observers_created\<close> counts the MutationObserver objects made so far; the
  count is the reference of the next one.
\<close>

record host =
  document_listeners :: "(string \<times> listener) list"
  window_listeners :: "(string \<times> listener) list"
  mutation_observed :: "(nat \<times> nat) list"
  mutation_observers_created :: nat
  attachShadow_patched :: bool
  document :: dnode

text \<open>
  The fields of the controller. Its property \<open>refresh\<close> never changes after the
  constructor has set it and is not a field: a call of it is \<open>this_refresh\<close> below.
\<close>

record ResizeObserverController =
  connected' :: bool
  mutationEventsAdded' :: bool
  mutationsObserver' :: "nat option"
  observers' :: "spi_ref list"

text \<open>
  The state of the whole system. \<open>getContentRect\<close> is the layout of the page, as
  \<open>utils/geometry\<close> reads it. \<open>obs_heap\<close> holds the ResizeObservation objects and
  \<open>obs_next\<close> is the reference that the next \<open>new ResizeObservation\<close> gets; \<open>spi_heap\<close>
  holds the observers. \<open>throttle\<close> is the private state of the wrapper made by
  \<open>utils/throttle\<close>, a file that is not at hand: its type is left open.
\<close>

record 't world =
  getContentRect :: "element \<Rightarrow> DOMRectInit"
  obs_heap :: "obs_ref \<Rightarrow> ResizeObservation"
  obs_next :: obs_ref
  spi_heap :: "spi_ref \<Rightarrow> ResizeObserverSPI"
  controller :: ResizeObserverController
  host :: host
  throttle :: 't

datatype jsvalue = Element element | NotAnElement

datatype error = TypeError_no_argument | TypeError_not_Element | Thrown nat

text \<open>A call either returns or throws; the state is the one reached at that moment.\<close>

type_synonym 't res = "(error \<times> 't world) + 't world"

text \<open>
  What a consumer's callback can do to this system: change the layout of the page, call
  the three methods of any observer it holds, throw. The code of a callback is the list
  of such actions it performs, which it may choose from its arguments and the state.
\<close>

datatype action =
  Resize element DOMRectInit
| Observe spi_ref "jsvalue list"
| Unobserve spi_ref "jsvalue list"
| Disconnect spi_ref
| Throw nat

type_synonym 't callbacks =
  "nat \<Rightarrow> ResizeObserverEntry list \<Rightarrow> nat \<Rightarrow> 't world \<Rightarrow> action list"

section \<open>Host interfaces\<close>

definition addEventListener ::
  "string \<Rightarrow> listener \<Rightarrow> (string \<times> listener) list \<Rightarrow> (string \<times> listener) list" where
  "addEventListener ty l ls = (if (ty, l) \<in> set ls then ls else ls @ [(ty, l)])"

definition removeEventListener ::
  "string \<Rightarrow> listener \<Rightarrow> (string \<times> listener) list \<Rightarrow> (string \<times> listener) list" where
  "removeEventListener ty l ls = removeAll (ty, l) ls"

definition new_MutationObserver :: "host \<Rightarrow> nat \<times> host" where
  "new_MutationObserver h =
     (mutation_observers_created h,
      h\<lparr>mutation_observers_created := Suc (mutation_observers_created h)\<rparr>)"

definition MutationObserver_observe :: "nat \<Rightarrow> nat \<Rightarrow> host \<Rightarrow> host" where
  "MutationObserver_observe m node h =
     (if (m, node) \<in> set (mutation_observed h) then h
      else h\<lparr>mutation_observed := mutation_observed h @ [(m, node)]\<rparr>)"

definition MutationObserver_disconnect :: "nat \<Rightarrow> host \<Rightarrow> host" where
  "MutationObserver_disconnect m h =
     h\<lparr>mutation_observed := filter (\<lambda>p. fst p \<noteq> m) (mutation_observed h)\<rparr>"

section \<open>ResizeObserverController\<close>

definition REFRESH_DELAY :: nat where
  "REFRESH_DELAY = 20"

definition transitionKeys :: "string list" where
  "transitionKeys =
     [''top'', ''right'', ''bottom'', ''left'', ''width'', ''height'', ''size'', ''weight'']"

definition new_ResizeObserverController :: ResizeObserverController where
  "new_ResizeObserverController =
     \<lparr>connected' = False, mutationEventsAdded' = False, mutationsObserver' = None,
      observers' = []\<rparr>"

text \<open>
  A call of \<open>this.refresh\<close>, the wrapper of the constructor. The parameter \<open>thr\<close> is what
  one call of the function returned by \<open>throttle(callback, delay)\<close> does to the wrapper's
  own state; when it runs \<open>callback\<close> is its own business and happens at a later time.
\<close>

definition this_refresh :: "(nat \<Rightarrow> 't \<Rightarrow> 't) \<Rightarrow> 't world \<Rightarrow> 't world" where
  "this_refresh thr w = w\<lparr>throttle := thr REFRESH_DELAY (throttle w)\<rparr>"

text \<open>
  \<open>observeExistingShadowRoots\<close>: the shadow roots put under observation, in the order of
  the calls of \<open>observe\<close>.
\<close>

fun observeExistingShadowRoots :: "dnode \<Rightarrow> nat list" where
  "observeExistingShadowRoots (DNode i sr cs) =
     (case sr of None \<Rightarrow> [] | Some s \<Rightarrow> node_id s # observeExistingShadowRoots s)
     @ concat (map observeExistingShadowRoots cs)"

definition connect' :: "env \<Rightarrow> 't world \<Rightarrow> 't world" where
  "connect' env w =
     (if \<not> isBrowser env \<or> connected' (controller w) then w
      else
        let h1 = (host w)\<lparr>document_listeners :=
                   addEventListener ''transitionend'' OnTransitionEnd
                     (document_listeners (host w))\<rparr>;
            h2 = h1\<lparr>window_listeners :=
                   addEventListener ''resize'' ThrottledRefresh (window_listeners h1)\<rparr>;
            (c3, h3) =
              (if mutationObserverSupported env then
                 let (m, h) = new_MutationObserver h2;
                     c = (controller w)\<lparr>mutationsObserver' := Some m\<rparr>;
                     h = MutationObserver_observe m (node_id (document h)) h
                 in if origAttachShadow env then
                      let h = fold (MutationObserver_observe m)
                                (observeExistingShadowRoots (document h)) h
                      in (c, h\<lparr>attachShadow_patched := True\<rparr>)
                    else (c, h)
               else
                 ((controller w)\<lparr>mutationEventsAdded' := True\<rparr>,
                  h2\<lparr>document_listeners :=
                    addEventListener ''DOMSubtreeModified'' ThrottledRefresh
                      (document_listeners h2)\<rparr>))
        in w\<lparr>controller := c3\<lparr>connected' := True\<rparr>, host := h3\<rparr>)"

definition disconnect' :: "env \<Rightarrow> 't world \<Rightarrow> 't world" where
  "disconnect' env w =
     (if \<not> isBrowser env \<or> \<not> connected' (controller w) then w
      else
        let c = controller w;
            h1 = (host w)\<lparr>document_listeners :=
                   removeEventListener ''transitionend'' OnTransitionEnd
                     (document_listeners (host w))\<rparr>;
            h2 = h1\<lparr>window_listeners :=
                   removeEventListener ''resize'' ThrottledRefresh (window_listeners h1)\<rparr>;
            h3 = (case mutationsObserver' c of
                    Some m \<Rightarrow>
                      let h = MutationObserver_disconnect m h2
                      in if origAttachShadow env then h\<lparr>attachShadow_patched := False\<rparr> else h
                  | None \<Rightarrow> h2);
            h4 = (if mutationEventsAdded' c then
                    h3\<lparr>document_listeners :=
                      removeEventListener ''DOMSubtreeModified'' ThrottledRefresh
                        (document_listeners h3)\<rparr>
                  else h3)
        in w\<lparr>controller := c\<lparr>mutationsObserver' := None, mutationEventsAdded' := False,
                              connected' := False\<rparr>,
             host := h4\<rparr>)"

definition addObserver :: "env \<Rightarrow> spi_ref \<Rightarrow> 't world \<Rightarrow> 't world" where
  "addObserver env observer w =
     (let c = controller w;
          w1 = (if NOT (indexOf (observers' c) observer) = 0
                then w\<lparr>controller := c\<lparr>observers' := observers' c @ [observer]\<rparr>\<rparr>
                else w)
      in if \<not> connected' (controller w1) then connect' env w1 else w1)"

definition removeObserver :: "env \<Rightarrow> spi_ref \<Rightarrow> 't world \<Rightarrow> 't world" where
  "removeObserver env observer w =
     (let c = controller w;
          index = indexOf (observers' c) observer;
          w1 = (if NOT index \<noteq> 0
                then w\<lparr>controller := c\<lparr>observers' := splice1 (nat index) (observers' c)\<rparr>\<rparr>
                else w)
      in if length (observers' (controller w1)) = 0 \<and> connected' (controller w1)
         then disconnect' env w1 else w1)"

definition onTransitionEnd' :: "(nat \<Rightarrow> 't \<Rightarrow> 't) \<Rightarrow> string option \<Rightarrow> 't world \<Rightarrow> 't world" where
  "onTransitionEnd' thr ev w =
     (let propertyName = (case ev of None \<Rightarrow> [] | Some s \<Rightarrow> s);
          isReflowProperty =
            list_ex (\<lambda>key. NOT (str_indexOf propertyName key) \<noteq> 0) transitionKeys
      in if isReflowProperty then this_refresh thr w else w)"

section \<open>ResizeObserverSPI\<close>

definition clearActive :: "spi_ref \<Rightarrow> 't world \<Rightarrow> 't world" where
  "clearActive this w =
     w\<lparr>spi_heap := (spi_heap w)
        (this := (spi_heap w this)
           \<lparr>activeObservations' := splice_all (activeObservations' (spi_heap w this))\<rparr>)\<rparr>"

definition hasActive :: "spi_ref \<Rightarrow> 't world \<Rightarrow> bool" where
  "hasActive this w = (length (activeObservations' (spi_heap w this)) > 0)"

text \<open>The \<open>forEach\<close> of \<open>gatherActive\<close>, over the entries of the registry.\<close>

fun gather_forEach :: "spi_ref \<Rightarrow> (element, obs_ref) MapShim \<Rightarrow> 't world \<Rightarrow> 't world" where
  "gather_forEach this [] w = w"
| "gather_forEach this (entry # entries) w =
     (let observation = snd entry;
          (active, ob) = isActive (getContentRect w) (obs_heap w observation);
          w1 = w\<lparr>obs_heap := (obs_heap w)(observation := ob)\<rparr>;
          w2 = (if active
                then w1\<lparr>spi_heap := (spi_heap w1)
                       (this := (spi_heap w1 this)
                          \<lparr>activeObservations' :=
                             activeObservations' (spi_heap w1 this) @ [observation]\<rparr>)\<rparr>
                else w1)
      in gather_forEach this entries w2)"

definition gatherActive :: "spi_ref \<Rightarrow> 't world \<Rightarrow> 't world" where
  "gatherActive this w =
     (let w1 = clearActive this w
      in gather_forEach this (observations' (spi_heap w1 this)) w1)"

text \<open>
  The \<open>map\<close> of \<open>broadcastActive\<close>: one entry for each active observation, each built
  from the target and the result of \<open>broadcastRect\<close>.
\<close>

fun map_entries ::
  "env \<Rightarrow> obs_ref list \<Rightarrow> 't world \<Rightarrow> ResizeObserverEntry list \<times> 't world" where
  "map_entries env [] w = ([], w)"
| "map_entries env (observation # rest) w =
     (let tgt = target (obs_heap w observation);
          (rect, ob) = broadcastRect (obs_heap w observation);
          w1 = w\<lparr>obs_heap := (obs_heap w)(observation := ob)\<rparr>;
          entry = new_ResizeObserverEntry env tgt rect;
          (entries, w2) = map_entries env rest w1
      in (entry # entries, w2))"

definition new_observation :: "env \<Rightarrow> element \<Rightarrow> 't world \<Rightarrow> obs_ref \<times> 't world" where
  "new_observation env tgt w =
     (obs_next w,
      w\<lparr>obs_heap := (obs_heap w)(obs_next w := new_ResizeObservation env tgt),
        obs_next := Suc (obs_next w)\<rparr>)"

definition observe ::
  "env \<Rightarrow> (nat \<Rightarrow> 't \<Rightarrow> 't) \<Rightarrow> spi_ref \<Rightarrow> jsvalue list \<Rightarrow> 't world \<Rightarrow> 't res" where
  "observe env thr this arguments w =
     (case arguments of
        [] \<Rightarrow> Inl (TypeError_no_argument, w)
      | tgt # _ \<Rightarrow>
          if \<not> elementInterface env then Inr w
          else
            (case tgt of
               NotAnElement \<Rightarrow> Inl (TypeError_not_Element, w)
             | Element e \<Rightarrow>
                 let observations = observations' (spi_heap w this)
                 in if Map_has observations e then Inr w
                    else
                      let (ob, w1) = new_observation env e w;
                          w2 = w1\<lparr>spi_heap := (spi_heap w1)
                                 (this := (spi_heap w1 this)
                                    \<lparr>observations' := Map_set observations e ob\<rparr>)\<rparr>;
                          w3 = addObserver env this w2
                      in Inr (this_refresh thr w3)))"

definition unobserve :: "env \<Rightarrow> spi_ref \<Rightarrow> jsvalue list \<Rightarrow> 't world \<Rightarrow> 't res" where
  "unobserve env this arguments w =
     (case arguments of
        [] \<Rightarrow> Inl (TypeError_no_argument, w)
      | tgt # _ \<Rightarrow>
          if \<not> elementInterface env then Inr w
          else
            (case tgt of
               NotAnElement \<Rightarrow> Inl (TypeError_not_Element, w)
             | Element e \<Rightarrow>
                 let observations = observations' (spi_heap w this)
                 in if \<not> Map_has observations e then Inr w
                    else
                      let observations1 = Map_delete observations e;
                          w1 = w\<lparr>spi_heap := (spi_heap w)
                                 (this := (spi_heap w this)\<lparr>observations' := observations1\<rparr>)\<rparr>
                      in if Map_size observations1 = 0
                         then Inr (removeObserver env this w1) else Inr w1))"

definition disconnect :: "env \<Rightarrow> spi_ref \<Rightarrow> 't world \<Rightarrow> 't world" where
  "disconnect env this w =
     (let w1 = clearActive this w;
          w2 = w1\<lparr>spi_heap := (spi_heap w1)
                 (this := (spi_heap w1 this)
                    \<lparr>observations' := Map_clear (observations' (spi_heap w1 this))\<rparr>)\<rparr>
      in removeObserver env this w2)"

text \<open>Running the code of a callback; it stops where an action throws.\<close>

fun run_actions :: "env \<Rightarrow> (nat \<Rightarrow> 't \<Rightarrow> 't) \<Rightarrow> action list \<Rightarrow> 't world \<Rightarrow> 't res" where
  "run_actions env thr [] w = Inr w"
| "run_actions env thr (Resize e rect # rest) w =
     run_actions env thr rest (w\<lparr>getContentRect := (getContentRect w)(e := rect)\<rparr>)"
| "run_actions env thr (Observe observer arguments # rest) w =
     (case observe env thr observer arguments w of
        Inl x \<Rightarrow> Inl x
      | Inr w1 \<Rightarrow> run_actions env thr rest w1)"
| "run_actions env thr (Unobserve observer arguments # rest) w =
     (case unobserve env observer arguments w of
        Inl x \<Rightarrow> Inl x
      | Inr w1 \<Rightarrow> run_actions env thr rest w1)"
| "run_actions env thr (Disconnect observer # rest) w =
     run_actions env thr rest (disconnect env observer w)"
| "run_actions env thr (Throw n # rest) w = Inl (Thrown n, w)"

definition broadcastActive ::
  "env \<Rightarrow> 't callbacks \<Rightarrow> (nat \<Rightarrow> 't \<Rightarrow> 't) \<Rightarrow> spi_ref \<Rightarrow> 't world \<Rightarrow> 't res" where
  "broadcastActive env cbs thr this w =
     (if \<not> hasActive this w then Inr w
      else
        let ctx = callbackCtx' (spi_heap w this);
            (entries, w1) = map_entries env (activeObservations' (spi_heap w this)) w
        in case run_actions env thr (cbs (callback' (spi_heap w1 this)) entries ctx w1) w1 of
             Inl x \<Rightarrow> Inl x
           | Inr w2 \<Rightarrow> Inr (clearActive this w2))"

section \<open>The update pass and refresh\<close>

text \<open>
  The \<open>filter\<close> of \<open>updateObservers'\<close>: each observer gathers, and is kept if it then has
  active observations.
\<close>

fun filter_gather :: "spi_ref list \<Rightarrow> 't world \<Rightarrow> spi_ref list \<times> 't world" where
  "filter_gather [] w = ([], w)"
| "filter_gather (observer # rest) w =
     (let w1 = gatherActive observer w;
          keep = hasActive observer w1;
          (kept, w2) = filter_gather rest w1
      in (if keep then observer # kept else kept, w2))"

fun forEach_broadcast ::
  "env \<Rightarrow> 't callbacks \<Rightarrow> (nat \<Rightarrow> 't \<Rightarrow> 't) \<Rightarrow> spi_ref list \<Rightarrow> 't world \<Rightarrow> 't res" where
  "forEach_broadcast env cbs thr [] w = Inr w"
| "forEach_broadcast env cbs thr (observer # rest) w =
     (case broadcastActive env cbs thr observer w of
        Inl x \<Rightarrow> Inl x
      | Inr w1 \<Rightarrow> forEach_broadcast env cbs thr rest w1)"

definition updateObservers' ::
  "env \<Rightarrow> 't callbacks \<Rightarrow> (nat \<Rightarrow> 't \<Rightarrow> 't) \<Rightarrow> 't world
     \<Rightarrow> (error \<times> 't world) + (bool \<times> 't world)" where
  "updateObservers' env cbs thr w =
     (let (activeObservers, w1) = filter_gather (observers' (controller w)) w
      in case forEach_broadcast env cbs thr activeObservers w1 of
           Inl x \<Rightarrow> Inl x
         | Inr w2 \<Rightarrow> Inr (length activeObservers > 0, w2))"

text \<open>
  The method \<open>refresh\<close> of the prototype, the function the constructor hands to
  \<open>throttle\<close>. Its continuation is a call of \<open>this.refresh\<close>.
\<close>

definition refresh :: "env \<Rightarrow> 't callbacks \<Rightarrow> (nat \<Rightarrow> 't \<Rightarrow> 't) \<Rightarrow> 't world \<Rightarrow> 't res" where
  "refresh env cbs thr w =
     (case updateObservers' env cbs thr w of
        Inl x \<Rightarrow> Inl x
      | Inr (changesDetected, w1) \<Rightarrow>
          if changesDetected then Inr (this_refresh thr w1) else Inr w1)"

section \<open>Vocabulary of the properties\<close>

text \<open>The state a call has reached, whether it returned or threw.\<close>

definition world_of :: "'t res \<Rightarrow> 't world" where
  "world_of r = (case r of Inl x \<Rightarrow> snd x | Inr w \<Rightarrow> w)"

text \<open>
  An observation has changed when a measurement now would find it active; \<open>measured\<close> are
  the observations of an observer's registry that have changed, in registry order.
\<close>

definition changed :: "'t world \<Rightarrow> obs_ref \<Rightarrow> bool" where
  "changed w ob = fst (isActive (getContentRect w) (obs_heap w ob))"

definition measured :: "'t world \<Rightarrow> spi_ref \<Rightarrow> obs_ref list" where
  "measured w this = filter (changed w) (map snd (observations' (spi_heap w this)))"

definition same_sizes :: "'t world \<Rightarrow> 't world \<Rightarrow> bool" where
  "same_sizes w1 w \<longleftrightarrow>
     getContentRect w1 = getContentRect w
     \<and> (\<forall>ob. target (obs_heap w1 ob) = target (obs_heap w ob)
            \<and> broadcastWidth (obs_heap w1 ob) = broadcastWidth (obs_heap w ob)
            \<and> broadcastHeight (obs_heap w1 ob) = broadcastHeight (obs_heap w ob))"

text \<open>
  The state in which the module has been loaded and \<open>getInstance\<close> has made the controller:
  no observer observes anything yet, nothing is registered with the host. An observer is
  as its constructor leaves it (the constructor throws a TypeError when the callback is
  not a function).
\<close>

definition new_ResizeObserverSPI :: "nat \<Rightarrow> nat \<Rightarrow> ResizeObserverSPI" where
  "new_ResizeObserverSPI callback callbackCtx =
     \<lparr>activeObservations' = [], callback' = callback, callbackCtx' = callbackCtx,
      observations' = []\<rparr>"

definition initial_world :: "env \<Rightarrow> (element \<Rightarrow> DOMRectInit) \<Rightarrow> dnode \<Rightarrow> 't \<Rightarrow> 't world" where
  "initial_world env layout doc t =
     \<lparr>getContentRect = layout,
      obs_heap = (\<lambda>ob. new_ResizeObservation env 0),
      obs_next = 0,
      spi_heap = (\<lambda>r. new_ResizeObserverSPI r r),
      controller = new_ResizeObserverController,
      host = \<lparr>document_listeners = [], window_listeners = [], mutation_observed = [],
               mutation_observers_created = 0, attachShadow_patched = False, document = doc\<rparr>,
      throttle = t\<rparr>"

text \<open>What a call has thrown, if it has.\<close>

definition thrown :: "'t res \<Rightarrow> error option" where
  "thrown r = (case r of Inl x \<Rightarrow> Some (fst x) | Inr w \<Rightarrow> None)"

text \<open>
  The parts of \<open>broadcastActive\<close>: the entries it builds and the state in which it then
  calls the callback, the code that this call of the callback runs, and the run itself.
\<close>

definition callback_entries :: "env \<Rightarrow> spi_ref \<Rightarrow> 't world \<Rightarrow> ResizeObserverEntry list" where
  "callback_entries env this w = fst (map_entries env (activeObservations' (spi_heap w this)) w)"

definition callback_state :: "env \<Rightarrow> spi_ref \<Rightarrow> 't world \<Rightarrow> 't world" where
  "callback_state env this w = snd (map_entries env (activeObservations' (spi_heap w this)) w)"

definition callback_actions :: "env \<Rightarrow> 't callbacks \<Rightarrow> spi_ref \<Rightarrow> 't world \<Rightarrow> action list" where
  "callback_actions env cbs this w =
     cbs (callback' (spi_heap w this)) (callback_entries env this w)
       (callbackCtx' (spi_heap w this)) (callback_state env this w)"

definition callback_run ::
  "env \<Rightarrow> 't callbacks \<Rightarrow> (nat \<Rightarrow> 't \<Rightarrow> 't) \<Rightarrow> spi_ref \<Rightarrow> 't world \<Rightarrow> 't res" where
  "callback_run env cbs thr this w =
     run_actions env thr (callback_actions env cbs this w) (callback_state env this w)"

text \<open>
  The refresh loop in the words of the specification (4.3, step 5: when an instance was
  active, "recurse to step 1 immediately (no throttle delay)"), to be compared with
  \<open>refresh\<close>. The fuel bounds the number of passes; a run of this loop that never
  converges runs out of any fuel.
\<close>

fun spec_refresh ::
  "nat \<Rightarrow> env \<Rightarrow> 't callbacks \<Rightarrow> (nat \<Rightarrow> 't \<Rightarrow> 't) \<Rightarrow> 't world \<Rightarrow> 't res option" where
  "spec_refresh 0 env cbs thr w = None"
| "spec_refresh (Suc fuel) env cbs thr w =
     (case updateObservers' env cbs thr w of
        Inl x \<Rightarrow> Some (Inl x)
      | Inr (anyActive, w1) \<Rightarrow>
          if anyActive then spec_refresh fuel env cbs thr w1 else Some (Inr w1))"

text \<open>
  Calls of the controller's two list methods, and the number of times a run of such calls
  takes the list from empty to non-empty.
\<close>

datatype controller_call = AddObserver spi_ref | RemoveObserver spi_ref

fun run_calls :: "env \<Rightarrow> controller_call list \<Rightarrow> 't world \<Rightarrow> 't world" where
  "run_calls env [] w = w"
| "run_calls env (AddObserver observer # calls) w = run_calls env calls (addObserver env observer w)"
| "run_calls env (RemoveObserver observer # calls) w =
     run_calls env calls (removeObserver env observer w)"

fun transitions :: "spi_ref list \<Rightarrow> controller_call list \<Rightarrow> nat" where
  "transitions observers [] = 0"
| "transitions observers (AddObserver observer # calls) =
     (if observers = [] then 1 else 0)
     + transitions (if observer \<in> set observers then observers else observers @ [observer]) calls"
| "transitions observers (RemoveObserver observer # calls) =
     transitions (remove1 observer observers) calls"

text \<open>
  The host holds no subscription of the controller, or exactly one set of them: each
  listener once, and the controller's own MutationObserver observing the document and,
  where \<open>attachShadow\<close> is native, the shadow roots found in it.
\<close>

definition observe_step :: "nat \<Rightarrow> nat \<Rightarrow> (nat \<times> nat) list \<Rightarrow> (nat \<times> nat) list" where
  "observe_step m node recs = (if (m, node) \<in> set recs then recs else recs @ [(m, node)])"

definition observing :: "nat \<Rightarrow> nat list \<Rightarrow> (nat \<times> nat) list" where
  "observing m nodes = fold (observe_step m) nodes []"

definition unsubscribed :: "host \<Rightarrow> bool" where
  "unsubscribed h \<longleftrightarrow>
     document_listeners h = [] \<and> window_listeners h = [] \<and> mutation_observed h = []
     \<and> \<not> attachShadow_patched h"

definition subscribed :: "env \<Rightarrow> ResizeObserverController \<Rightarrow> host \<Rightarrow> bool" where
  "subscribed env c h \<longleftrightarrow>
     window_listeners h = [(''resize'', ThrottledRefresh)]
     \<and> (if mutationObserverSupported env then
          document_listeners h = [(''transitionend'', OnTransitionEnd)]
          \<and> (case mutationsObserver' c of
                None \<Rightarrow> False
              | Some m \<Rightarrow>
                  mutation_observed h =
                    observing m (node_id (document h)
                      # (if origAttachShadow env then observeExistingShadowRoots (document h)
                         else [])))
          \<and> attachShadow_patched h = origAttachShadow env
        else
          document_listeners h =
            [(''transitionend'', OnTransitionEnd), (''DOMSubtreeModified'', ThrottledRefresh)]
          \<and> mutationsObserver' c = None
          \<and> mutation_observed h = [] \<and> \<not> attachShadow_patched h)"

text \<open>
  The invariant of the controller: its list has no duplicates, it is connected exactly
  when the list is not empty, and the host's subscriptions are as \<open>connected'\<close> says.
\<close>

definition controller_inv :: "env \<Rightarrow> 't world \<Rightarrow> bool" where
  "controller_inv env w \<longleftrightarrow>
     distinct (observers' (controller w))
     \<and> (connected' (controller w) \<longleftrightarrow> observers' (controller w) \<noteq> [])
     \<and> (if connected' (controller w)
        then subscribed env (controller w) (host w)
             \<and> (mutationEventsAdded' (controller w) \<longleftrightarrow> \<not> mutationObserverSupported env)
        else unsubscribed (host w) \<and> mutationsObserver' (controller w) = None
             \<and> \<not> mutationEventsAdded' (controller w))"

text \<open>
  What can happen to the system: the calls of the three public methods, a run of
  \<open>refresh\<close> by the throttle, a call of the throttled wrapper by the host (resize,
  mutation), a \<open>transitionend\<close> event, and a change of the layout of the page. An
  exception leaves the system in the state reached when it was thrown.
\<close>

datatype event =
  Call_observe spi_ref "jsvalue list"
| Call_unobserve spi_ref "jsvalue list"
| Call_disconnect spi_ref
| Run_refresh
| Call_wrapper
| Fire_transitionend "string option"
| Layout element DOMRectInit

fun step :: "env \<Rightarrow> 't callbacks \<Rightarrow> (nat \<Rightarrow> 't \<Rightarrow> 't) \<Rightarrow> event \<Rightarrow> 't world \<Rightarrow> 't world" where
  "step env cbs thr (Call_observe observer arguments) w =
     world_of (observe env thr observer arguments w)"
| "step env cbs thr (Call_unobserve observer arguments) w =
     world_of (unobserve env observer arguments w)"
| "step env cbs thr (Call_disconnect observer) w = disconnect env observer w"
| "step env cbs thr Run_refresh w = world_of (refresh env cbs thr w)"
| "step env cbs thr Call_wrapper w = this_refresh thr w"
| "step env cbs thr (Fire_transitionend ev) w = onTransitionEnd' thr ev w"
| "step env cbs thr (Layout e rect) w = w\<lparr>getContentRect := (getContentRect w)(e := rect)\<rparr>"

definition run_events ::
  "env \<Rightarrow> 't callbacks \<Rightarrow> (nat \<Rightarrow> 't \<Rightarrow> 't) \<Rightarrow> event list \<Rightarrow> 't world \<Rightarrow> 't world" where
  "run_events env cbs thr events w = fold (step env cbs thr) events w"

text \<open>
  Well-formed registries: an observer's registry holds each element once, the
  observations in the registry and in the list of active observations are objects made by
  \<open>observe\<close> (their references lie below the allocation mark), and without the Element
  interface nothing is ever registered.
\<close>

definition registry_wf :: "env \<Rightarrow> 't world \<Rightarrow> bool" where
  "registry_wf env w \<longleftrightarrow>
     (\<forall>r. distinct (map fst (observations' (spi_heap w r)))
          \<and> (\<forall>ob \<in> snd ` set (observations' (spi_heap w r)). ob < obs_next w)
          \<and> (\<forall>ob \<in> set (activeObservations' (spi_heap w r)). ob < obs_next w)
          \<and> (\<not> elementInterface env \<longrightarrow> observations' (spi_heap w r) = []))"

text \<open>A property of states that every operation of the system preserves.\<close>

definition stable :: "env \<Rightarrow> (nat \<Rightarrow> 't \<Rightarrow> 't) \<Rightarrow> ('t world \<Rightarrow> bool) \<Rightarrow> bool" where
  "stable env thr P \<longleftrightarrow>
     (\<forall>w. P w \<longrightarrow>
        (\<forall>r args. P (world_of (observe env thr r args w)))
        \<and> (\<forall>r args. P (world_of (unobserve env r args w)))
        \<and> (\<forall>r. P (disconnect env r w))
        \<and> (\<forall>r. P (gatherActive r w))
        \<and> (\<forall>r. P (clearActive r w))
        \<and> (\<forall>r. P (callback_state env r w))
        \<and> P (this_refresh thr w)
        \<and> (\<forall>e rect. P (w\<lparr>getContentRect := (getContentRect w)(e := rect)\<rparr>)))"

section \<open>Example states\<close>

definition rect0 :: DOMRectInit where
  "rect0 = \<lparr>rect_x = Some 0, rect_y = Some 0, width = Some 100, height = Some 50\<rparr>"

definition rect1 :: DOMRectInit where
  "rect1 = \<lparr>rect_x = Some 5, rect_y = Some 7, width = Some 100, height = Some 80\<rparr>"

definition observation0 :: ResizeObservation where
  "observation0 =
     \<lparr>target = 1, broadcastWidth = Some 100, broadcastHeight = Some 50, contentRect' = rect0\<rparr>"

definition env0 :: env where
  "env0 =
     \<lparr>isBrowser = True, mutationObserverSupported = True, origAttachShadow = True,
      elementInterface = True,
      createRectInit = (\<lambda>x y w h. \<lparr>rect_x = Some x, rect_y = Some y, width = Some w, height = Some h\<rparr>),
      createReadOnlyRect = (\<lambda>r.
        \<lparr>ro_x = rect_x r, ro_y = rect_y r, ro_width = width r, ro_height = height r,
         ro_top = rect_y r,
         ro_right = (case (rect_x r, width r) of (Some a, Some b) \<Rightarrow> Some (a + b) | _ \<Rightarrow> None),
         ro_bottom = (case (rect_y r, height r) of (Some a, Some b) \<Rightarrow> Some (a + b) | _ \<Rightarrow> None),
         ro_left = rect_x r\<rparr>)\<rparr>"

definition thr0 :: "nat \<Rightarrow> nat \<Rightarrow> nat" where
  "thr0 delay calls = Suc calls"

definition doc0 :: dnode where
  "doc0 = DNode 0 None [DNode 1 (Some (DNode 2 None [])) [], DNode 3 None []]"

definition world0 :: "nat world" where
  "world0 = initial_world env0 (\<lambda>e. rect0) doc0 0"

definition world1 :: "nat world" where
  "world1 = world_of (observe env0 thr0 0 [Element 1] world0)"

definition cbs_resize :: "nat callbacks" where
  "cbs_resize cb entries ctx w = [Resize 1 rect1]"

definition cbs_none :: "nat callbacks" where
  "cbs_none cb entries ctx w = []"

definition world2 :: "nat world" where
  "world2 = world_of (refresh env0 cbs_none thr0 world1)"

definition cbs_throw :: "nat callbacks" where
  "cbs_throw cb entries ctx w = [Throw 7]"

definition cbs_disconnect_throw :: "nat callbacks" where
  "cbs_disconnect_throw cb entries ctx w = [Disconnect ctx, Throw 7]"

definition world1g :: "nat world" where
  "world1g = gatherActive 0 world1"

definition env_nb :: env where
  "env_nb = env0\<lparr>isBrowser := False, origAttachShadow := False\<rparr>"

text \<open>The definitions that a run of the model on these states unfolds.\<close>

lemmas eval_defs = world1_def world0_def initial_world_def env0_def thr0_def doc0_def rect0_def rect1_def
  world_of_def new_ResizeObserverSPI_def new_ResizeObservation_def new_ResizeObserverController_def
  observe_def unobserve_def disconnect_def Map_has_def Map_set_def Map_delete_def Map_size_def Map_clear_def
  getIndex_def indexOf_def splice1_def splice_all_def new_observation_def addObserver_def removeObserver_def
  connect'_def disconnect'_def this_refresh_def REFRESH_DELAY_def addEventListener_def removeEventListener_def
  new_MutationObserver_def MutationObserver_observe_def MutationObserver_disconnect_def
  clearActive_def hasActive_def gatherActive_def isActive_def broadcastRect_def broadcastActive_def
  new_ResizeObserverEntry_def updateObservers'_def refresh_def Let_def

section \<open>ResizeObservation: measuring and committing\<close>

text \<open>
  C3. \<open>isActive\<close> stores the rectangle it has just measured as \<open>contentRect'\<close> whatever its
  result is, and changes nothing else of the observation; its result is true exactly when
  the measured width differs from \<open>broadcastWidth\<close> or the measured height differs from
  \<open>broadcastHeight\<close>. Two measurements with the same width and height give the same
  result: the position of the rectangle (\<open>rect_x\<close>, \<open>rect_y\<close>, from which top, right, bottom
  and left derive) has no part in it.
\<close>

theorem isActive_measures_and_compares:
  "snd (isActive g this) = this\<lparr>contentRect' := g (target this)\<rparr>
   \<and> contentRect' (snd (isActive g this)) = g (target this)
   \<and> (fst (isActive g this) \<longleftrightarrow>
        width (g (target this)) \<noteq> broadcastWidth this
        \<or> height (g (target this)) \<noteq> broadcastHeight this)
   \<and> (width (g2 (target this)) = width (g (target this))
        \<and> height (g2 (target this)) = height (g (target this)) \<longrightarrow>
          fst (isActive g2 this) = fst (isActive g this))
   \<and> fst (isActive (\<lambda>e. (g e)\<lparr>rect_x := a, rect_y := b\<rparr>) this) = fst (isActive g this)"
  by (simp add: isActive_def Let_def)

theorem isActive_measures_and_compares_witness:
  "fst (isActive (\<lambda>e. rect1) observation0)
   \<and> contentRect' (snd (isActive (\<lambda>e. rect1) observation0)) = rect1
   \<and> \<not> fst (isActive (\<lambda>e. rect1\<lparr>height := Some 50\<rparr>) observation0)
   \<and> contentRect' (snd (isActive (\<lambda>e. rect1\<lparr>height := Some 50\<rparr>) observation0))
       = rect1\<lparr>height := Some 50\<rparr>
   \<and> \<not> fst (isActive (\<lambda>e. rect0\<lparr>rect_x := Some 30, rect_y := Some 40\<rparr>) observation0)"
  using isActive_measures_and_compares [of "\<lambda>e. rect1" observation0]
    isActive_measures_and_compares [of "\<lambda>e. rect1\<lparr>height := Some 50\<rparr>" observation0
      "\<lambda>e. rect0\<lparr>rect_x := Some 30, rect_y := Some 40\<rparr>"]
  by (simp add: rect0_def rect1_def observation0_def)

text \<open>
  C4. \<open>broadcastRect\<close> returns the last measured rectangle and sets \<open>broadcastWidth\<close> and
  \<open>broadcastHeight\<close> to its width and height, changing nothing else. Result and state
  after it depend on the last measurement only, not on the values broadcast before: a
  second call with no measurement in between returns the same rectangle and leaves the
  same state. After a measurement the committed values are those just measured.
\<close>

theorem broadcastRect_commits_last_measurement:
  "fst (broadcastRect this) = contentRect' this
   \<and> snd (broadcastRect this) =
       this\<lparr>broadcastWidth := width (contentRect' this),
            broadcastHeight := height (contentRect' this)\<rparr>
   \<and> broadcastRect (snd (broadcastRect this)) = broadcastRect this
   \<and> broadcastRect (this\<lparr>broadcastWidth := bw, broadcastHeight := bh\<rparr>) = broadcastRect this
   \<and> fst (broadcastRect (snd (isActive g this))) = g (target this)
   \<and> broadcastWidth (snd (broadcastRect (snd (isActive g this)))) = width (g (target this))
   \<and> broadcastHeight (snd (broadcastRect (snd (isActive g this)))) = height (g (target this))"
  by (simp add: broadcastRect_def isActive_def Let_def)

theorem broadcastRect_commits_last_measurement_witness:
  "fst (broadcastRect (snd (isActive (\<lambda>e. rect1) observation0))) = rect1
   \<and> broadcastHeight (snd (broadcastRect (snd (isActive (\<lambda>e. rect1) observation0)))) = Some 80
   \<and> broadcastRect (snd (broadcastRect (snd (isActive (\<lambda>e. rect1) observation0))))
       = broadcastRect (snd (isActive (\<lambda>e. rect1) observation0))"
  using broadcastRect_commits_last_measurement [of observation0 _ _ "\<lambda>e. rect1"]
    broadcastRect_commits_last_measurement [of "snd (isActive (\<lambda>e. rect1) observation0)"]
  by (simp add: rect1_def observation0_def)

section \<open>The gather pass\<close>

lemma same_sizes_changed: "same_sizes w1 w \<Longrightarrow> changed w1 = changed w"
  by (auto simp: same_sizes_def changed_def isActive_def Let_def fun_eq_iff)

lemma same_sizes_refl: "same_sizes w w"
  by (simp add: same_sizes_def)

lemma same_sizes_trans: "same_sizes w2 w1 \<Longrightarrow> same_sizes w1 w \<Longrightarrow> same_sizes w2 w"
  by (simp add: same_sizes_def)

lemma gather_forEach_frame:
  "same_sizes (gather_forEach this es w) w
   \<and> controller (gather_forEach this es w) = controller w
   \<and> host (gather_forEach this es w) = host w
   \<and> throttle (gather_forEach this es w) = throttle w
   \<and> obs_next (gather_forEach this es w) = obs_next w
   \<and> (\<forall>r. r \<noteq> this \<longrightarrow> spi_heap (gather_forEach this es w) r = spi_heap w r)
   \<and> observations' (spi_heap (gather_forEach this es w) this) = observations' (spi_heap w this)
   \<and> activeObservations' (spi_heap (gather_forEach this es w) this)
       = activeObservations' (spi_heap w this) @ filter (changed w) (map snd es)"
proof (induction es arbitrary: w)
  case Nil
  show ?case by (simp add: same_sizes_refl)
next
  case (Cons entry es)
  define ob where "ob = snd entry"
  define w1 where "w1 = w\<lparr>obs_heap := (obs_heap w)(ob := snd (isActive (getContentRect w) (obs_heap w ob)))\<rparr>"
  define w2 where "w2 = (if changed w ob
                then w1\<lparr>spi_heap := (spi_heap w1)
                       (this := (spi_heap w1 this)
                          \<lparr>activeObservations' :=
                             activeObservations' (spi_heap w1 this) @ [ob]\<rparr>)\<rparr>
                else w1)"
  have step: "gather_forEach this (entry # es) w = gather_forEach this es w2"
    by (simp add: w2_def w1_def ob_def changed_def Let_def split: prod.splits)
  have s2: "same_sizes w2 w"
    by (simp add: w2_def w1_def same_sizes_def isActive_def Let_def)
  have c2: "changed w2 = changed w" using s2 by (rule same_sizes_changed)
  have f2: "controller w2 = controller w" "host w2 = host w" "throttle w2 = throttle w"
    "obs_next w2 = obs_next w" "\<And>r. r \<noteq> this \<Longrightarrow> spi_heap w2 r = spi_heap w r"
    "observations' (spi_heap w2 this) = observations' (spi_heap w this)"
    "activeObservations' (spi_heap w2 this)
       = activeObservations' (spi_heap w this) @ (if changed w ob then [ob] else [])"
    by (simp_all add: w2_def w1_def)
  show ?case
    unfolding step using Cons.IH [of w2] s2 f2
    by (auto simp: c2 ob_def intro: same_sizes_trans)
qed

lemma gatherActive_frame:
  "same_sizes (gatherActive this w) w
   \<and> controller (gatherActive this w) = controller w
   \<and> host (gatherActive this w) = host w
   \<and> throttle (gatherActive this w) = throttle w
   \<and> obs_next (gatherActive this w) = obs_next w
   \<and> (\<forall>r. r \<noteq> this \<longrightarrow> spi_heap (gatherActive this w) r = spi_heap w r)
   \<and> observations' (spi_heap (gatherActive this w) this) = observations' (spi_heap w this)
   \<and> activeObservations' (spi_heap (gatherActive this w) this) = measured w this"
proof -
  define w1 where "w1 = clearActive this w"
  have s1: "same_sizes w1 w" by (simp add: w1_def clearActive_def same_sizes_def)
  have c1: "changed w1 = changed w" using s1 by (rule same_sizes_changed)
  have f1: "controller w1 = controller w" "host w1 = host w" "throttle w1 = throttle w"
    "obs_next w1 = obs_next w" "\<And>r. r \<noteq> this \<Longrightarrow> spi_heap w1 r = spi_heap w r"
    "observations' (spi_heap w1 this) = observations' (spi_heap w this)"
    "activeObservations' (spi_heap w1 this) = []"
    by (simp_all add: w1_def clearActive_def splice_all_def)
  have g: "gatherActive this w = gather_forEach this (observations' (spi_heap w this)) w1"
    by (simp add: gatherActive_def Let_def w1_def f1(6) [unfolded w1_def])
  show ?thesis
    unfolding g using gather_forEach_frame [of this "observations' (spi_heap w this)" w1] s1 f1
    by (auto simp: c1 measured_def intro: same_sizes_trans)
qed

lemma measured_gatherActive: "measured (gatherActive r w) this = measured w this"
proof -
  have "changed (gatherActive r w) = changed w"
    using gatherActive_frame [of r w] by (simp add: same_sizes_changed)
  moreover have "observations' (spi_heap (gatherActive r w) this) = observations' (spi_heap w this)"
    using gatherActive_frame [of r w] by (cases "this = r") auto
  ultimately show ?thesis by (simp add: measured_def)
qed

lemma measured_fold_gatherActive: "measured (fold gatherActive rs w) this = measured w this"
  by (induction rs arbitrary: w) (simp_all add: measured_gatherActive)

lemma fold_gatherActive_other:
  "this \<notin> set rs \<Longrightarrow> spi_heap (fold gatherActive rs w) this = spi_heap w this"
proof (induction rs arbitrary: w)
  case Nil
  show ?case by simp
next
  case (Cons r rs)
  then show ?case using gatherActive_frame [of r w] by auto
qed

lemma fold_gatherActive_active:
  "this \<in> set rs \<Longrightarrow> activeObservations' (spi_heap (fold gatherActive rs w) this) = measured w this"
proof (induction rs arbitrary: w)
  case Nil
  then show ?case by simp
next
  case (Cons r rs)
  show ?case
  proof (cases "this \<in> set rs")
    case True
    then show ?thesis using Cons.IH [of "gatherActive r w"] by (simp add: measured_gatherActive)
  next
    case False
    with Cons.prems have "this = r" by simp
    with False show ?thesis
      using gatherActive_frame [of r w] by (simp add: fold_gatherActive_other)
  qed
qed

lemma filter_gather_eq:
  "filter_gather rs w = (filter (\<lambda>r. measured w r \<noteq> []) rs, fold gatherActive rs w)"
proof (induction rs arbitrary: w)
  case Nil
  show ?case by simp
next
  case (Cons r rs)
  have "hasActive r (gatherActive r w) \<longleftrightarrow> measured w r \<noteq> []"
    using gatherActive_frame [of r w] by (simp add: hasActive_def)
  then show ?case
    using Cons.IH [of "gatherActive r w"] by (simp add: measured_gatherActive Let_def)
qed

lemma filter_gather_decomposed:
  "filter_gather rs w =
     (filter (\<lambda>r. hasActive r (fold gatherActive rs w)) rs, fold gatherActive rs w)"
proof -
  have "filter (\<lambda>r. hasActive r (fold gatherActive rs w)) rs = filter (\<lambda>r. measured w r \<noteq> []) rs"
    by (rule filter_cong) (simp_all add: hasActive_def fold_gatherActive_active)
  then show ?thesis by (simp add: filter_gather_eq)
qed

lemma NOT_zero_iff: "NOT (i::int) = 0 \<longleftrightarrow> i = - 1"
  by (simp add: not_int_def)

lemma updateObservers_decomposed:
  "updateObservers' env cbs thr w =
     (let observers = observers' (controller w);
          w1 = fold gatherActive observers w;
          activeObservers = filter (\<lambda>observer. hasActive observer w1) observers
      in case forEach_broadcast env cbs thr activeObservers w1 of
           Inl x \<Rightarrow> Inl x
         | Inr w2 \<Rightarrow> Inr (activeObservers \<noteq> [], w2))"
  by (simp add: updateObservers'_def filter_gather_decomposed Let_def split: sum.splits)

section \<open>The update pass\<close>

text \<open>
  C1. An update pass is the gather pass followed by the broadcast pass: first
  \<open>gatherActive\<close> runs on every observer of the controller's list, in list order, with no
  callback involved; the observers that broadcast are those that have active observations
  in the state the whole gather pass has reached, and the first \<open>broadcastActive\<close> starts
  from that state. After the gather pass every observer of the list holds as active exactly
  the observations of its registry that have changed.
\<close>

theorem updateObservers_gathers_then_broadcasts:
  "updateObservers' env cbs thr w =
     (let observers = observers' (controller w);
          w1 = fold gatherActive observers w;
          activeObservers = filter (\<lambda>observer. hasActive observer w1) observers
      in case forEach_broadcast env cbs thr activeObservers w1 of
           Inl x \<Rightarrow> Inl x
         | Inr w2 \<Rightarrow> Inr (activeObservers \<noteq> [], w2))
   \<and> (\<forall>observer \<in> set (observers' (controller w)).
        activeObservations' (spi_heap (fold gatherActive (observers' (controller w)) w) observer)
          = measured w observer)"
proof -
  define observers where "observers = observers' (controller w)"
  define w1 where "w1 = fold gatherActive observers w"
  define activeObservers where "activeObservers = filter (\<lambda>observer. hasActive observer w1) observers"
  have pass: "filter_gather observers w = (activeObservers, w1)"
    unfolding activeObservers_def w1_def by (rule filter_gather_decomposed)
  have update: "updateObservers' env cbs thr w =
      (case forEach_broadcast env cbs thr activeObservers w1 of
         Inl x \<Rightarrow> Inl x
       | Inr w2 \<Rightarrow> Inr (activeObservers \<noteq> [], w2))"
    using pass by (simp add: updateObservers'_def observers_def split: sum.splits)
  have gathered: "activeObservations' (spi_heap w1 observer) = measured w observer"
    if "observer \<in> set observers" for observer
    unfolding w1_def using that by (rule fold_gatherActive_active)
  from update gathered show ?thesis
    by (simp add: Let_def observers_def w1_def activeObservers_def cong: sum.case_cong)
qed

theorem updateObservers_gathers_then_broadcasts_witness:
  "updateObservers' env0 cbs_resize thr0 world1 =
     (case forEach_broadcast env0 cbs_resize thr0 [0] (gatherActive 0 world1) of
        Inl x \<Rightarrow> Inl x
      | Inr w2 \<Rightarrow> Inr (True, w2))
   \<and> activeObservations' (spi_heap (gatherActive 0 world1) 0) = [0]"
proof -
  have obs: "observers' (controller world1) = [0]"
    by (simp add: eval_defs)
  have m: "measured world1 0 = [0]"
    by (simp add: measured_def changed_def eval_defs)
  have h: "hasActive 0 (gatherActive 0 world1)"
    using m gatherActive_frame [of 0 world1] by (simp add: hasActive_def)
  show ?thesis
    using updateObservers_gathers_then_broadcasts [of env0 cbs_resize thr0 world1] obs m h
    by (simp add: Let_def cong: sum.case_cong)
qed

section \<open>refresh\<close>

text \<open>
  C5. When the gather pass leaves no observer of the list with an active observation,
  \<open>refresh\<close> returns the state that this one gather pass has reached: the list of observers
  to broadcast to is empty, whatever the callbacks are they are not run, and the throttled
  wrapper is not called.
\<close>

theorem refresh_stops_when_nothing_active:
  assumes "\<forall>observer \<in> set (observers' (controller w)).
             \<not> hasActive observer (fold gatherActive (observers' (controller w)) w)"
  shows "refresh env cbs thr w = Inr (fold gatherActive (observers' (controller w)) w)
         \<and> fst (filter_gather (observers' (controller w)) w) = []
         \<and> throttle (fold gatherActive (observers' (controller w)) w) = throttle w"
proof -
  have none: "filter (\<lambda>observer. hasActive observer (fold gatherActive (observers' (controller w)) w))
                (observers' (controller w)) = []"
    using assms by (simp add: filter_empty_conv)
  have thr: "throttle (fold gatherActive rs w) = throttle w" for rs
    using gatherActive_frame by (induction rs arbitrary: w) (simp, fastforce)
  show ?thesis
    by (simp add: refresh_def updateObservers_decomposed filter_gather_decomposed Let_def none thr)
qed

theorem refresh_stops_when_nothing_active_witness:
  "observers' (controller world2) = [0]
   \<and> refresh env0 cbs_resize thr0 world2 = Inr (gatherActive 0 world2)
   \<and> throttle (gatherActive 0 world2) = throttle world2"
proof -
  have obs: "observers' (controller world2) = [0]"
    by (simp add: eval_defs world2_def cbs_none_def)
  have m: "measured world2 0 = []"
    by (simp add: measured_def changed_def eval_defs world2_def cbs_none_def)
  have h: "\<not> hasActive 0 (gatherActive 0 world2)"
    using m gatherActive_frame [of 0 world2] by (simp add: hasActive_def)
  have "\<forall>observer \<in> set (observers' (controller world2)).
          \<not> hasActive observer (fold gatherActive (observers' (controller world2)) world2)"
    using obs h by simp
  from refresh_stops_when_nothing_active [OF this, of env0 cbs_resize thr0] obs
  show ?thesis by simp
qed

text \<open>
  C2, as stated, fails. Observer 0 observes element 1, whose size has not been broadcast
  yet, and its callback answers a notification by resizing the element. \<open>refresh\<close> returns
  after one update pass: the observation is active again, and what \<open>refresh\<close> has done
  about it is one call of the throttled wrapper. The loop of the specification, from the
  same state, makes three passes back to back, leaves nothing active and does not call
  the wrapper.
\<close>

theorem refresh_runs_back_to_back_counterexample:
  "thrown (refresh env0 cbs_resize thr0 world1) = None
   \<and> throttle (world_of (refresh env0 cbs_resize thr0 world1)) = Suc (throttle world1)
   \<and> changed (world_of (refresh env0 cbs_resize thr0 world1)) 0
   \<and> observations' (spi_heap (world_of (refresh env0 cbs_resize thr0 world1)) 0) = [(1, 0)]
   \<and> spec_refresh 3 env0 cbs_resize thr0 world1 \<noteq> None
   \<and> throttle (world_of (the (spec_refresh 3 env0 cbs_resize thr0 world1))) = throttle world1
   \<and> \<not> changed (world_of (the (spec_refresh 3 env0 cbs_resize thr0 world1))) 0
   \<and> spec_refresh 3 env0 cbs_resize thr0 world1 \<noteq> Some (refresh env0 cbs_resize thr0 world1)"
proof -
  have code: "thrown (refresh env0 cbs_resize thr0 world1) = None
   \<and> throttle (world_of (refresh env0 cbs_resize thr0 world1)) = Suc (throttle world1)
   \<and> changed (world_of (refresh env0 cbs_resize thr0 world1)) 0
   \<and> observations' (spi_heap (world_of (refresh env0 cbs_resize thr0 world1)) 0) = [(1, 0)]"
    by (simp add: eval_defs cbs_resize_def changed_def thrown_def)
  have spec: "spec_refresh 3 env0 cbs_resize thr0 world1 \<noteq> None
   \<and> throttle (world_of (the (spec_refresh 3 env0 cbs_resize thr0 world1))) = throttle world1
   \<and> \<not> changed (world_of (the (spec_refresh 3 env0 cbs_resize thr0 world1))) 0"
    by (simp add: numeral_3_eq_3 eval_defs cbs_resize_def changed_def)
  from code spec show ?thesis by (metis option.sel)
qed

text \<open>
  C2, amended. The continuation of \<open>refresh\<close> is a call of \<open>this.refresh\<close>, the throttled
  wrapper: one run of \<open>refresh\<close> is one gather pass and one broadcast pass, followed by
  exactly one call of the wrapper when an observer was active and by nothing otherwise.
\<close>

theorem refresh_continues_through_throttle:
  "refresh env cbs thr w =
     (let observers = observers' (controller w);
          w1 = fold gatherActive observers w;
          activeObservers = filter (\<lambda>observer. hasActive observer w1) observers
      in case forEach_broadcast env cbs thr activeObservers w1 of
           Inl x \<Rightarrow> Inl x
         | Inr w2 \<Rightarrow>
             Inr (if activeObservers \<noteq> []
                  then w2\<lparr>throttle := thr REFRESH_DELAY (throttle w2)\<rparr> else w2))"
proof -
  define w1 where "w1 = fold gatherActive (observers' (controller w)) w"
  define activeObservers where
    "activeObservers = filter (\<lambda>observer. hasActive observer w1) (observers' (controller w))"
  have update: "updateObservers' env cbs thr w =
      (case forEach_broadcast env cbs thr activeObservers w1 of
         Inl x \<Rightarrow> Inl x
       | Inr w2 \<Rightarrow> Inr (activeObservers \<noteq> [], w2))"
    by (simp add: updateObservers_decomposed Let_def w1_def activeObservers_def cong: sum.case_cong)
  have "refresh env cbs thr w =
      (case forEach_broadcast env cbs thr activeObservers w1 of
         Inl x \<Rightarrow> Inl x
       | Inr w2 \<Rightarrow> Inr (if activeObservers \<noteq> [] then this_refresh thr w2 else w2))"
  proof (cases "forEach_broadcast env cbs thr activeObservers w1")
    case (Inl x)
    with update show ?thesis by (simp add: refresh_def)
  next
    case (Inr w2)
    with update show ?thesis by (simp add: refresh_def)
  qed
  then show ?thesis
    by (simp add: Let_def w1_def activeObservers_def this_refresh_def split: sum.splits)
qed

theorem refresh_continues_through_throttle_witness:
  "refresh env0 cbs_resize thr0 world1 =
     (case forEach_broadcast env0 cbs_resize thr0 [0] (gatherActive 0 world1) of
        Inl x \<Rightarrow> Inl x
      | Inr w2 \<Rightarrow> Inr (w2\<lparr>throttle := Suc (throttle w2)\<rparr>))"
proof -
  have obs: "observers' (controller world1) = [0]"
    by (simp add: eval_defs)
  have m: "measured world1 0 = [0]"
    by (simp add: measured_def changed_def eval_defs)
  have h: "hasActive 0 (gatherActive 0 world1)"
    using m gatherActive_frame [of 0 world1] by (simp add: hasActive_def)
  show ?thesis
    using refresh_continues_through_throttle [of env0 cbs_resize thr0 world1] obs h
    by (simp add: Let_def thr0_def cong: sum.case_cong)
qed


section \<open>Transition events\<close>

lemma str_indexOf_from_found: "str_indexOf_from i s key \<noteq> - 1 \<longleftrightarrow> sublist key s"
proof (induction s arbitrary: i)
  case Nil
  then show ?case by simp
next
  case (Cons c s)
  show ?case
  proof (cases "prefix key (c # s)")
    case True
    then show ?thesis by (simp add: sublist_Cons_right)
  next
    case False
    then show ?thesis using Cons.IH [of "Suc i"] by (simp add: sublist_Cons_right)
  qed
qed

lemma str_indexOf_found: "NOT (str_indexOf s key) \<noteq> 0 \<longleftrightarrow> sublist key s"
  by (simp add: NOT_zero_iff str_indexOf_def str_indexOf_from_found)

text \<open>
  C8. The handler of \<open>transitionend\<close> calls \<open>this.refresh\<close> exactly when the name of the
  property (the empty string when the event has none) has one of the eight keys as a
  substring, and does nothing otherwise.
\<close>

theorem onTransitionEnd_substring_match:
  "onTransitionEnd' thr ev w =
     (if \<exists>key \<in> {''top'', ''right'', ''bottom'', ''left'', ''width'', ''height'', ''size'',
                    ''weight''}.
           sublist key (case ev of None \<Rightarrow> [] | Some propertyName \<Rightarrow> propertyName)
      then this_refresh thr w else w)"
proof -
  define propertyName where "propertyName = (case ev of None \<Rightarrow> [] | Some s \<Rightarrow> s)"
  have "list_ex (\<lambda>key. NOT (str_indexOf propertyName key) \<noteq> 0) transitionKeys
        \<longleftrightarrow> (\<exists>key \<in> set transitionKeys. sublist key propertyName)"
    by (simp add: list_ex_iff str_indexOf_found)
  moreover have "set transitionKeys =
      {''top'', ''right'', ''bottom'', ''left'', ''width'', ''height'', ''size'', ''weight''}"
    by (simp add: transitionKeys_def)
  ultimately show ?thesis
    by (simp add: onTransitionEnd'_def Let_def propertyName_def)
qed

theorem onTransitionEnd_substring_match_witness:
  "throttle (onTransitionEnd' thr0 (Some ''max-width'') world0) = Suc (throttle world0)
   \<and> onTransitionEnd' thr0 (Some ''opacity'') world0 = world0
   \<and> onTransitionEnd' thr0 None world0 = world0"
  using onTransitionEnd_substring_match [of thr0 "Some ''max-width''" world0]
    onTransitionEnd_substring_match [of thr0 "Some ''opacity''" world0]
    onTransitionEnd_substring_match [of thr0 None world0]
  by (simp add: sublist_code this_refresh_def thr0_def)

section \<open>The Map shim, arrays, and what the controller leaves alone\<close>

lemma getIndex_from_found: "getIndex_from i m k \<noteq> - 1 \<longleftrightarrow> k \<in> fst ` set m"
  by (induction m arbitrary: i) auto

lemma Map_has_iff: "Map_has m k \<longleftrightarrow> k \<in> fst ` set m"
  by (simp add: Map_has_def NOT_zero_iff getIndex_def getIndex_from_found)

lemma Map_set_new: "\<not> Map_has m k \<Longrightarrow> Map_set m k v = m @ [(k, v)]"
  by (simp add: Map_has_def Map_set_def)

lemma getIndex_from_delete:
  "distinct (map fst m) \<Longrightarrow> getIndex_from i m k \<noteq> - 1 \<Longrightarrow>
     int i \<le> getIndex_from i m k
     \<and> k \<notin> fst ` set (splice1 (nat (getIndex_from i m k) - i) m)"
proof (induction m arbitrary: i)
  case Nil
  then show ?case by simp
next
  case (Cons p m)
  show ?case
  proof (cases "fst p = k")
    case True
    with Cons.prems show ?thesis by (auto simp: splice1_def)
  next
    case False
    with Cons.prems have d: "distinct (map fst m)" and f: "getIndex_from (Suc i) m k \<noteq> - 1"
      by simp_all
    from Cons.IH [OF d f] have ge: "int (Suc i) \<le> getIndex_from (Suc i) m k"
      and notin: "k \<notin> fst ` set (splice1 (nat (getIndex_from (Suc i) m k) - Suc i) m)"
      by simp_all
    from ge have "nat (getIndex_from (Suc i) m k) - i = Suc (nat (getIndex_from (Suc i) m k) - Suc i)"
      by linarith
    with False ge notin show ?thesis by (auto simp: splice1_def)
  qed
qed

lemma Map_delete_removes:
  "distinct (map fst m) \<Longrightarrow> \<not> Map_has (Map_delete m k) k"
proof (cases "Map_has m k")
  case True
  assume "distinct (map fst m)"
  with True getIndex_from_delete [of m 0 k] show ?thesis
    by (simp add: Map_has_iff Map_delete_def Let_def NOT_zero_iff getIndex_def getIndex_from_found)
next
  case False
  then show ?thesis by (simp add: Map_delete_def Map_has_def)
qed

lemma indexOf_from_found: "indexOf_from i xs v \<noteq> - 1 \<longleftrightarrow> v \<in> set xs"
  by (induction xs arbitrary: i) auto

lemma indexOf_absent: "NOT (indexOf xs v) = 0 \<longleftrightarrow> v \<notin> set xs"
  using indexOf_from_found [of 0 xs v] by (auto simp: NOT_zero_iff indexOf_def)

lemma indexOf_from_splice:
  "indexOf_from i xs v \<noteq> - 1 \<Longrightarrow>
     int i \<le> indexOf_from i xs v \<and> splice1 (nat (indexOf_from i xs v) - i) xs = remove1 v xs"
proof (induction xs arbitrary: i)
  case Nil
  then show ?case by simp
next
  case (Cons x xs)
  show ?case
  proof (cases "x = v")
    case True
    then show ?thesis by (simp add: splice1_def)
  next
    case False
    with Cons.prems have f: "indexOf_from (Suc i) xs v \<noteq> - 1" by simp
    from Cons.IH [OF f] have ge: "int (Suc i) \<le> indexOf_from (Suc i) xs v"
      and sp: "splice1 (nat (indexOf_from (Suc i) xs v) - Suc i) xs = remove1 v xs"
      by simp_all
    from ge have "nat (indexOf_from (Suc i) xs v) - i = Suc (nat (indexOf_from (Suc i) xs v) - Suc i)"
      by linarith
    with False ge sp show ?thesis by (auto simp: splice1_def)
  qed
qed

lemma splice1_indexOf: "v \<in> set xs \<Longrightarrow> splice1 (nat (indexOf xs v)) xs = remove1 v xs"
  using indexOf_from_splice [of 0 xs v] by (simp add: indexOf_def indexOf_from_found)

lemma connect'_heaps [simp]:
  "spi_heap (connect' env w) = spi_heap w"
  "obs_heap (connect' env w) = obs_heap w"
  "obs_next (connect' env w) = obs_next w"
  "getContentRect (connect' env w) = getContentRect w"
  "throttle (connect' env w) = throttle w"
  by (simp_all add: connect'_def Let_def split: prod.splits)

lemma disconnect'_heaps [simp]:
  "spi_heap (disconnect' env w) = spi_heap w"
  "obs_heap (disconnect' env w) = obs_heap w"
  "obs_next (disconnect' env w) = obs_next w"
  "getContentRect (disconnect' env w) = getContentRect w"
  "throttle (disconnect' env w) = throttle w"
  by (simp_all add: disconnect'_def Let_def)

lemma addObserver_heaps [simp]:
  "spi_heap (addObserver env r w) = spi_heap w"
  "obs_heap (addObserver env r w) = obs_heap w"
  "obs_next (addObserver env r w) = obs_next w"
  "getContentRect (addObserver env r w) = getContentRect w"
  "throttle (addObserver env r w) = throttle w"
  by (simp_all add: addObserver_def Let_def)

lemma removeObserver_heaps [simp]:
  "spi_heap (removeObserver env r w) = spi_heap w"
  "obs_heap (removeObserver env r w) = obs_heap w"
  "obs_next (removeObserver env r w) = obs_next w"
  "getContentRect (removeObserver env r w) = getContentRect w"
  "throttle (removeObserver env r w) = throttle w"
  by (simp_all add: removeObserver_def Let_def)

section \<open>observe\<close>

text \<open>
  C6. \<open>observe\<close> with an element that is already in the observer's registry returns
  the state as it is: no observation is made, the registry, the controller and the host
  are untouched. Hence a second call after a call that has returned changes nothing: the
  state is the one the first call has left, in which (where the host has the Element
  interface) the element is registered.
\<close>

theorem observe_registered_target_is_noop:
  "(Map_has (observations' (spi_heap w this)) e \<longrightarrow>
      observe env thr this (Element e # rest) w = Inr w)
   \<and> (observe env thr this (Element e # rest) w = Inr w1 \<longrightarrow>
        observe env thr this (Element e # rest) w1 = Inr w1
        \<and> (elementInterface env \<longrightarrow> Map_has (observations' (spi_heap w1 this)) e))"
proof -
  have a: "observe env thr this (Element e # rest) w = Inr w"
    if "Map_has (observations' (spi_heap w this)) e" for w :: "'a world"
    using that by (simp add: observe_def)
  have b: "Map_has (observations' (spi_heap w1 this)) e"
    if "observe env thr this (Element e # rest) w = Inr w1" "elementInterface env"
  proof (cases "Map_has (observations' (spi_heap w this)) e")
    case True
    with that show ?thesis by (simp add: observe_def)
  next
    case False
    with that have "observations' (spi_heap w1 this) = observations' (spi_heap w this) @ [(e, obs_next w)]"
      by (auto simp: observe_def Let_def new_observation_def this_refresh_def Map_set_new)
    then show ?thesis by (simp add: Map_has_iff)
  qed
  have c: "observe env thr this (Element e # rest) w1 = Inr w1"
    if "observe env thr this (Element e # rest) w = Inr w1"
  proof (cases "elementInterface env")
    case True
    with that b show ?thesis by (simp add: a)
  next
    case False
    then show ?thesis by (simp add: observe_def)
  qed
  show ?thesis using a b c by blast
qed

theorem observe_registered_target_is_noop_witness:
  "observe env0 thr0 0 [Element 1] world0 = Inr world1
   \<and> Map_has (observations' (spi_heap world1 0)) 1
   \<and> observe env0 thr0 0 [Element 1] world1 = Inr world1
   \<and> Map_size (observations' (spi_heap world1 0)) = 1"
proof -
  have first: "observe env0 thr0 0 [Element 1] world0 = Inr world1"
    by (simp add: eval_defs)
  have reg: "observations' (spi_heap world1 0) = [(1, 0)]"
    by (simp add: eval_defs)
  have has: "Map_has (observations' (spi_heap world1 0)) 1"
    by (simp add: reg Map_has_iff)
  from first reg has
    observe_registered_target_is_noop [of world0 0 1 env0 thr0 "[]" world1]
    observe_registered_target_is_noop [of world1 0 1 env0 thr0 "[]" world1]
  show ?thesis by (simp add: Map_size_def)
qed

section \<open>broadcastActive and the callback\<close>

lemma broadcastRect_idem: "snd (broadcastRect (snd (broadcastRect ob))) = snd (broadcastRect ob)"
  by (simp add: broadcastRect_def Let_def)

lemma map_entries_eq:
  "map_entries env obs w =
     (map (\<lambda>ob. new_ResizeObserverEntry env (target (obs_heap w ob)) (contentRect' (obs_heap w ob))) obs,
      w\<lparr>obs_heap := (\<lambda>ob. if ob \<in> set obs then snd (broadcastRect (obs_heap w ob))
                           else obs_heap w ob)\<rparr>)"
proof (induction obs arbitrary: w)
  case Nil
  show ?case by simp
next
  case (Cons o1 obs)
  define w1 where "w1 = w\<lparr>obs_heap := (obs_heap w)(o1 := snd (broadcastRect (obs_heap w o1)))\<rparr>"
  have t: "target (obs_heap w1 ob) = target (obs_heap w ob)"
          "contentRect' (obs_heap w1 ob) = contentRect' (obs_heap w ob)" for ob
    by (simp_all add: w1_def broadcastRect_def Let_def)
  have h: "(\<lambda>ob. if ob \<in> set obs then snd (broadcastRect (obs_heap w1 ob)) else obs_heap w1 ob)
         = (\<lambda>ob. if ob \<in> set (o1 # obs) then snd (broadcastRect (obs_heap w ob)) else obs_heap w ob)"
    by (auto simp: w1_def fun_eq_iff broadcastRect_idem)
  have step: "map_entries env (o1 # obs) w =
     (new_ResizeObserverEntry env (target (obs_heap w o1)) (contentRect' (obs_heap w o1))
        # fst (map_entries env obs w1), snd (map_entries env obs w1))"
    by (simp add: w1_def Let_def broadcastRect_def split: prod.splits)
  show ?case
    unfolding step Cons.IH [of w1] by (simp add: t h) (simp add: w1_def)
qed

lemma broadcastActive_unfold:
  "broadcastActive env cbs thr this w =
     (if \<not> hasActive this w then Inr w
      else case callback_run env cbs thr this w of
             Inl x \<Rightarrow> Inl x
           | Inr w2 \<Rightarrow> Inr (clearActive this w2))"
  by (simp add: broadcastActive_def callback_run_def callback_actions_def callback_entries_def
      callback_state_def Let_def map_entries_eq split: prod.splits)

lemma observe_frame:
  "obs_next w \<le> obs_next (world_of (observe env thr r args w))
   \<and> (\<forall>ob. ob < obs_next w \<longrightarrow> obs_heap (world_of (observe env thr r args w)) ob = obs_heap w ob)
   \<and> activeObservations' (spi_heap (world_of (observe env thr r args w)) this)
       = activeObservations' (spi_heap w this)"
  by (auto simp: observe_def world_of_def Let_def new_observation_def this_refresh_def
      split: list.splits jsvalue.splits)

lemma unobserve_frame:
  "obs_next (world_of (unobserve env r args w)) = obs_next w
   \<and> obs_heap (world_of (unobserve env r args w)) = obs_heap w
   \<and> activeObservations' (spi_heap (world_of (unobserve env r args w)) this)
       = activeObservations' (spi_heap w this)"
  by (auto simp: unobserve_def world_of_def Let_def split: list.splits jsvalue.splits)

lemma disconnect_frame:
  "obs_next (disconnect env r w) = obs_next w
   \<and> obs_heap (disconnect env r w) = obs_heap w
   \<and> (r \<noteq> this \<longrightarrow> activeObservations' (spi_heap (disconnect env r w) this)
                      = activeObservations' (spi_heap w this))
   \<and> activeObservations' (spi_heap (disconnect env r w) r) = []"
  by (simp add: disconnect_def Let_def clearActive_def splice_all_def)

lemma run_actions_frame:
  "obs_next w \<le> obs_next (world_of (run_actions env thr as w))
   \<and> (\<forall>ob. ob < obs_next w \<longrightarrow> obs_heap (world_of (run_actions env thr as w)) ob = obs_heap w ob)
   \<and> (Disconnect this \<notin> set as \<longrightarrow>
        activeObservations' (spi_heap (world_of (run_actions env thr as w)) this)
          = activeObservations' (spi_heap w this))"
proof (induction env thr as w rule: run_actions.induct)
  case (1 env thr w)
  show ?case by (simp add: world_of_def)
next
  case (2 env thr e rect rest w)
  then show ?case by simp
next
  case (3 env thr observer arguments rest w)
  show ?case
  proof (cases "observe env thr observer arguments w")
    case (Inl x)
    then show ?thesis
      using observe_frame [of w env thr observer arguments this] by simp
  next
    case (Inr w1)
    then show ?thesis
      using observe_frame [of w env thr observer arguments this] 3 [OF Inr]
      by (auto simp: world_of_def)
  qed
next
  case (4 env thr observer arguments rest w)
  show ?case
  proof (cases "unobserve env observer arguments w")
    case (Inl x)
    then show ?thesis
      using unobserve_frame [of env observer arguments w this] by simp
  next
    case (Inr w1)
    then show ?thesis
      using unobserve_frame [of env observer arguments w this] 4 [OF Inr]
      by (auto simp: world_of_def)
  qed
next
  case (5 env thr observer rest w)
  then show ?case
    using disconnect_frame [of env observer w this] by auto
next
  case (6 env thr n rest w)
  show ?case by (simp add: world_of_def)
qed

section \<open>Well-formed states\<close>

lemma splice1_keys:
  "distinct (map fst m) \<Longrightarrow> distinct (map fst (splice1 n m)) \<and> set (splice1 n m) \<subseteq> set m"
proof -
  assume d: "distinct (map fst m)"
  have "map fst (splice1 n m) = take n (map fst m) @ drop (Suc n) (map fst m)"
    by (simp add: splice1_def take_map drop_map)
  moreover have "set (take n (map fst m)) \<inter> set (drop (Suc n) (map fst m)) = {}"
    using d set_take_disj_set_drop_if_distinct [of "map fst m" n "Suc n"] by simp
  ultimately have "distinct (map fst (splice1 n m))"
    using d by (simp add: distinct_take distinct_drop)
  moreover have "set (splice1 n m) \<subseteq> set m"
    by (auto simp: splice1_def dest: in_set_takeD in_set_dropD)
  ultimately show ?thesis by simp
qed

lemma Map_delete_keys:
  "distinct (map fst m) \<Longrightarrow> distinct (map fst (Map_delete m k)) \<and> set (Map_delete m k) \<subseteq> set m"
  using splice1_keys [of m] by (simp add: Map_delete_def Let_def)

lemma registry_wf_frame:
  assumes "registry_wf env w" "spi_heap w1 = spi_heap w" "obs_next w \<le> obs_next w1"
  shows "registry_wf env w1"
  using assms unfolding registry_wf_def by (metis (no_types, lifting) order_less_le_trans)

lemma observe_wf:
  assumes "registry_wf env w"
  shows "registry_wf env (world_of (observe env thr observer arguments w))"
proof (cases "\<exists>e rest. arguments = Element e # rest \<and> elementInterface env
                \<and> \<not> Map_has (observations' (spi_heap w observer)) e")
  case False
  then have "world_of (observe env thr observer arguments w) = w"
    by (auto simp: observe_def world_of_def Let_def split: list.splits jsvalue.splits)
  with assms show ?thesis by simp
next
  case True
  then obtain e rest where a: "arguments = Element e # rest" "elementInterface env"
    "\<not> Map_has (observations' (spi_heap w observer)) e" by blast
  define w1 where "w1 = world_of (observe env thr observer arguments w)"
  have n: "obs_next w1 = Suc (obs_next w)"
    using a by (simp add: w1_def observe_def world_of_def Let_def new_observation_def this_refresh_def)
  have s: "spi_heap w1 = (spi_heap w)(observer := (spi_heap w observer)
             \<lparr>observations' := observations' (spi_heap w observer) @ [(e, obs_next w)]\<rparr>)"
    using a by (simp add: w1_def observe_def world_of_def Let_def new_observation_def this_refresh_def
        Map_set_new)
  have "registry_wf env w1"
    unfolding registry_wf_def
  proof (intro allI)
    fix r
    show "distinct (map fst (observations' (spi_heap w1 r)))
          \<and> (\<forall>ob \<in> snd ` set (observations' (spi_heap w1 r)). ob < obs_next w1)
          \<and> (\<forall>ob \<in> set (activeObservations' (spi_heap w1 r)). ob < obs_next w1)
          \<and> (\<not> elementInterface env \<longrightarrow> observations' (spi_heap w1 r) = [])"
      using assms a(2,3) unfolding registry_wf_def n s
      by (cases "r = observer") (auto simp: Map_has_iff less_Suc_eq)
  qed
  then show ?thesis by (simp add: w1_def)
qed

lemma unobserve_wf:
  assumes "registry_wf env w"
  shows "registry_wf env (world_of (unobserve env observer arguments w))"
proof (cases "\<exists>e rest. arguments = Element e # rest \<and> elementInterface env
                \<and> Map_has (observations' (spi_heap w observer)) e")
  case False
  then have "world_of (unobserve env observer arguments w) = w"
    by (auto simp: unobserve_def world_of_def Let_def split: list.splits jsvalue.splits)
  with assms show ?thesis by simp
next
  case True
  then obtain e rest where a: "arguments = Element e # rest" "elementInterface env"
    "Map_has (observations' (spi_heap w observer)) e" by blast
  define w1 where "w1 = world_of (unobserve env observer arguments w)"
  define m where "m = observations' (spi_heap w observer)"
  have n: "obs_next w1 = obs_next w"
    using a by (simp add: w1_def unobserve_def world_of_def Let_def)
  have s: "spi_heap w1 = (spi_heap w)(observer := (spi_heap w observer)
             \<lparr>observations' := Map_delete m e\<rparr>)"
    using a by (simp add: w1_def m_def unobserve_def world_of_def Let_def)
  from assms have dm: "distinct (map fst m)" and bm: "\<forall>ob \<in> snd ` set m. ob < obs_next w"
    by (simp_all add: registry_wf_def m_def)
  from Map_delete_keys [OF dm, of e]
  have d: "distinct (map fst (Map_delete m e))" and sub: "set (Map_delete m e) \<subseteq> set m"
    by simp_all
  from sub bm have b: "\<forall>ob \<in> snd ` set (Map_delete m e). ob < obs_next w" by blast
  have "registry_wf env w1"
    unfolding registry_wf_def
  proof (intro allI)
    fix r
    show "distinct (map fst (observations' (spi_heap w1 r)))
          \<and> (\<forall>ob \<in> snd ` set (observations' (spi_heap w1 r)). ob < obs_next w1)
          \<and> (\<forall>ob \<in> set (activeObservations' (spi_heap w1 r)). ob < obs_next w1)
          \<and> (\<not> elementInterface env \<longrightarrow> observations' (spi_heap w1 r) = [])"
    proof (cases "r = observer")
      case True
      with assms a(2) d b show ?thesis by (simp add: n s registry_wf_def)
    next
      case False
      with assms show ?thesis by (simp add: n s registry_wf_def)
    qed
  qed
  then show ?thesis by (simp add: w1_def)
qed

lemma disconnect_wf:
  assumes "registry_wf env w"
  shows "registry_wf env (disconnect env observer w)"
proof -
  have s: "spi_heap (disconnect env observer w) = (spi_heap w)(observer := (spi_heap w observer)
             \<lparr>activeObservations' := [], observations' := []\<rparr>)"
    by (simp add: disconnect_def Let_def clearActive_def splice_all_def Map_clear_def)
  have n: "obs_next (disconnect env observer w) = obs_next w"
    by (simp add: disconnect_def Let_def clearActive_def)
  show ?thesis
    using assms unfolding registry_wf_def n s by auto
qed

lemma gatherActive_wf:
  assumes "registry_wf env w"
  shows "registry_wf env (gatherActive observer w)"
  unfolding registry_wf_def
proof (intro allI)
  fix r
  note f = gatherActive_frame [of observer w]
  have reg: "observations' (spi_heap (gatherActive observer w) r) = observations' (spi_heap w r)"
    using f by (cases "r = observer") auto
  have act: "set (activeObservations' (spi_heap (gatherActive observer w) r))
               \<subseteq> set (activeObservations' (spi_heap w r)) \<union> snd ` set (observations' (spi_heap w r))"
    using f by (cases "r = observer") (auto simp: measured_def)
  show "distinct (map fst (observations' (spi_heap (gatherActive observer w) r)))
          \<and> (\<forall>ob \<in> snd ` set (observations' (spi_heap (gatherActive observer w) r)).
                ob < obs_next (gatherActive observer w))
          \<and> (\<forall>ob \<in> set (activeObservations' (spi_heap (gatherActive observer w) r)).
                ob < obs_next (gatherActive observer w))
          \<and> (\<not> elementInterface env \<longrightarrow> observations' (spi_heap (gatherActive observer w) r) = [])"
    using assms act f unfolding registry_wf_def reg by (auto, blast)
qed

lemma clearActive_wf: "registry_wf env w \<Longrightarrow> registry_wf env (clearActive observer w)"
  unfolding registry_wf_def by (simp add: clearActive_def splice_all_def)

lemma stableD:
  assumes "stable env thr P" "P w"
  shows "P (world_of (observe env thr r args w))"
    and "P (world_of (unobserve env r args w))"
    and "P (disconnect env r w)"
    and "P (gatherActive r w)"
    and "P (clearActive r w)"
    and "P (callback_state env r w)"
    and "P (this_refresh thr w)"
    and "P (w\<lparr>getContentRect := (getContentRect w)(e := rect)\<rparr>)"
  using assms(1) [unfolded stable_def, rule_format, OF assms(2)] by simp_all

lemma run_actions_stable:
  "stable env thr P \<Longrightarrow> P w \<Longrightarrow> P (world_of (run_actions env thr as w))"
proof (induction env thr as w rule: run_actions.induct)
  case (1 env thr w)
  then show ?case by (simp add: world_of_def)
next
  case (2 env thr e rect rest w)
  from 2(2,3) have "P (w\<lparr>getContentRect := (getContentRect w)(e := rect)\<rparr>)"
    by (rule stableD)
  from 2(1) [OF 2(2) this] show ?case by simp
next
  case (3 env thr observer arguments rest w)
  from 3(2,3) have o: "P (world_of (observe env thr observer arguments w))"
    by (rule stableD)
  show ?case
  proof (cases "observe env thr observer arguments w")
    case (Inl x)
    with o show ?thesis by (simp add: world_of_def)
  next
    case (Inr w1)
    with o have "P w1" by (simp add: world_of_def)
    from 3(1) [OF Inr 3(2) this] Inr show ?thesis by simp
  qed
next
  case (4 env thr observer arguments rest w)
  from 4(2,3) have o: "P (world_of (unobserve env observer arguments w))"
    by (rule stableD)
  show ?case
  proof (cases "unobserve env observer arguments w")
    case (Inl x)
    with o show ?thesis by (simp add: world_of_def)
  next
    case (Inr w1)
    with o have "P w1" by (simp add: world_of_def)
    from 4(1) [OF Inr 4(2) this] Inr show ?thesis by simp
  qed
next
  case (5 env thr observer rest w)
  from 5(2,3) have "P (disconnect env observer w)" by (rule stableD)
  from 5(1) [OF 5(2) this] show ?case by simp
next
  case (6 env thr n rest w)
  then show ?case by (simp add: world_of_def)
qed

lemma broadcastActive_stable:
  assumes "stable env thr P" "P w"
  shows "P (world_of (broadcastActive env cbs thr observer w))"
proof (cases "hasActive observer w")
  case False
  with assms show ?thesis by (simp add: broadcastActive_unfold world_of_def)
next
  case True
  from assms have "P (callback_state env observer w)" by (rule stableD)
  with assms(1) have r: "P (world_of (callback_run env cbs thr observer w))"
    unfolding callback_run_def by (rule run_actions_stable)
  show ?thesis
  proof (cases "callback_run env cbs thr observer w")
    case (Inl x)
    with r True show ?thesis by (simp add: broadcastActive_unfold world_of_def)
  next
    case (Inr w2)
    with r have "P w2" by (simp add: world_of_def)
    with assms(1) have "P (clearActive observer w2)" by (rule stableD)
    with Inr True show ?thesis by (simp add: broadcastActive_unfold world_of_def)
  qed
qed

lemma forEach_broadcast_stable:
  "stable env thr P \<Longrightarrow> P w \<Longrightarrow> P (world_of (forEach_broadcast env cbs thr rs w))"
proof (induction rs arbitrary: w)
  case Nil
  then show ?case by (simp add: world_of_def)
next
  case (Cons r rs)
  note b = broadcastActive_stable [OF Cons.prems, of cbs r]
  show ?case
  proof (cases "broadcastActive env cbs thr r w")
    case (Inl x)
    with b show ?thesis by (simp add: world_of_def)
  next
    case (Inr w1)
    with b have "P w1" by (simp add: world_of_def)
    from Cons.IH [OF Cons.prems(1) this] Inr show ?thesis by simp
  qed
qed

lemma fold_gatherActive_stable:
  "stable env thr P \<Longrightarrow> P w \<Longrightarrow> P (fold gatherActive rs w)"
proof (induction rs arbitrary: w)
  case Nil
  then show ?case by simp
next
  case (Cons r rs)
  from Cons.prems have "P (gatherActive r w)" by (rule stableD)
  from Cons.IH [OF Cons.prems(1) this] show ?case by simp
qed

lemma refresh_stable:
  assumes "stable env thr P" "P w"
  shows "P (world_of (refresh env cbs thr w))"
proof -
  define rs where "rs = filter (\<lambda>observer. hasActive observer (fold gatherActive (observers' (controller w)) w))
                         (observers' (controller w))"
  define w1 where "w1 = fold gatherActive (observers' (controller w)) w"
  have "P w1" unfolding w1_def using assms by (rule fold_gatherActive_stable)
  with assms(1) have b: "P (world_of (forEach_broadcast env cbs thr rs w1))"
    by (rule forEach_broadcast_stable)
  show ?thesis
  proof (cases "forEach_broadcast env cbs thr rs w1")
    case (Inl x)
    with b show ?thesis
      by (simp add: refresh_def updateObservers_decomposed Let_def rs_def w1_def world_of_def)
  next
    case (Inr w2)
    with b have p2: "P w2" by (simp add: world_of_def)
    with assms(1) have "P (this_refresh thr w2)" by (rule stableD)
    with Inr p2 show ?thesis
      by (simp add: refresh_def updateObservers_decomposed Let_def rs_def w1_def world_of_def)
  qed
qed

lemma step_stable:
  assumes "stable env thr P" "P w"
  shows "P (step env cbs thr ev w)"
proof (cases ev)
  case (Call_observe r args)
  with stableD(1) [OF assms] show ?thesis by simp
next
  case (Call_unobserve r args)
  with stableD(2) [OF assms] show ?thesis by simp
next
  case (Call_disconnect r)
  with stableD(3) [OF assms] show ?thesis by simp
next
  case Run_refresh
  with refresh_stable [OF assms, of cbs] show ?thesis by simp
next
  case Call_wrapper
  with stableD(7) [OF assms] show ?thesis by simp
next
  case (Fire_transitionend x)
  with stableD(7) [OF assms] assms(2) show ?thesis by (simp add: onTransitionEnd'_def Let_def)
next
  case (Layout e rect)
  with stableD(8) [OF assms] show ?thesis by simp
qed

lemma run_events_stable:
  "stable env thr P \<Longrightarrow> P w \<Longrightarrow> P (run_events env cbs thr events w)"
  unfolding run_events_def
proof (induction events arbitrary: w)
  case Nil
  then show ?case by simp
next
  case (Cons ev events)
  from Cons.prems have "P (step env cbs thr ev w)" by (rule step_stable)
  from Cons.IH [OF Cons.prems(1) this] show ?case by simp
qed

lemma registry_wf_stable: "stable env thr (registry_wf env)"
  unfolding stable_def
proof (intro allI impI conjI)
  fix w :: "'a world" and e rect r
  assume w: "registry_wf env w"
  show "registry_wf env (callback_state env r w)"
    using w by (simp add: callback_state_def map_entries_eq registry_wf_def)
  show "registry_wf env (this_refresh thr w)"
    using w by (simp add: registry_wf_def this_refresh_def)
  show "registry_wf env (w\<lparr>getContentRect := (getContentRect w)(e := rect)\<rparr>)"
    using w by (simp add: registry_wf_def)
qed (simp_all add: observe_wf unobserve_wf disconnect_wf gatherActive_wf clearActive_wf)

lemma initial_world_wf: "registry_wf env (initial_world env layout doc t)"
  by (simp add: registry_wf_def initial_world_def new_ResizeObserverSPI_def)

text \<open>Every state that the system reaches from its initial state is well-formed.\<close>

lemma reachable_registry_wf:
  "registry_wf env (run_events env cbs thr events (initial_world env layout doc t))"
  using registry_wf_stable initial_world_wf by (rule run_events_stable)

section \<open>The callback throws; an observation is removed before the broadcast\<close>

text \<open>
  C9, as stated, fails. The callback of observer 0 calls \<open>disconnect\<close> on its observer
  and then throws: when the exception leaves \<open>broadcastActive\<close> the active observations
  have been cleared, by \<open>disconnect\<close>, and \<open>hasActive\<close> is false.
\<close>

theorem broadcastActive_callback_throws_counterexample:
  "activeObservations' (spi_heap world1g 0) = [0]
   \<and> hasActive 0 world1g
   \<and> thrown (broadcastActive env0 cbs_disconnect_throw thr0 0 world1g) = Some (Thrown 7)
   \<and> \<not> hasActive 0 (world_of (broadcastActive env0 cbs_disconnect_throw thr0 0 world1g))"
  by (simp add: eval_defs world1g_def cbs_disconnect_throw_def thrown_def)

text \<open>
  C9, amended. In a well-formed state, when the callback throws, \<open>broadcastActive\<close>
  throws the same error in the state the callback has reached, and does nothing after it.
  In that state every observation that was active has its width and height committed.
  Unless the code of the callback calls \<open>disconnect\<close> on this observer, the list of
  active observations is what it was, so \<open>hasActive\<close> is still true.
\<close>

theorem broadcastActive_callback_throws:
  assumes "registry_wf env w"
    and "hasActive this w"
    and "callback_run env cbs thr this w = Inl (err, w2)"
  shows "broadcastActive env cbs thr this w = Inl (err, w2)
    \<and> (\<forall>ob \<in> set (activeObservations' (spi_heap w this)).
          broadcastWidth (obs_heap w2 ob) = width (contentRect' (obs_heap w ob))
          \<and> broadcastHeight (obs_heap w2 ob) = height (contentRect' (obs_heap w ob))
          \<and> contentRect' (obs_heap w2 ob) = contentRect' (obs_heap w ob))
    \<and> (Disconnect this \<notin> set (callback_actions env cbs this w) \<longrightarrow>
          activeObservations' (spi_heap w2 this) = activeObservations' (spi_heap w this)
          \<and> hasActive this w2)"
proof -
  define w1 where "w1 = callback_state env this w"
  have w1: "w1 = w\<lparr>obs_heap := (\<lambda>ob. if ob \<in> set (activeObservations' (spi_heap w this))
                                         then snd (broadcastRect (obs_heap w ob))
                                         else obs_heap w ob)\<rparr>"
    by (simp add: w1_def callback_state_def map_entries_eq)
  have alloc: "\<forall>ob \<in> set (activeObservations' (spi_heap w this)). ob < obs_next w"
    using assms(1) by (simp add: registry_wf_def)
  have run: "run_actions env thr (callback_actions env cbs this w) w1 = Inl (err, w2)"
    using assms(3) by (simp add: callback_run_def w1_def)
  then have w2: "world_of (run_actions env thr (callback_actions env cbs this w) w1) = w2"
    by (simp add: world_of_def)
  note fr = run_actions_frame [of w1 env thr "callback_actions env cbs this w" this, unfolded w2]
  have a: "broadcastActive env cbs thr this w = Inl (err, w2)"
    using assms(2,3) by (simp add: broadcastActive_unfold)
  have b: "broadcastWidth (obs_heap w2 ob) = width (contentRect' (obs_heap w ob))
          \<and> broadcastHeight (obs_heap w2 ob) = height (contentRect' (obs_heap w ob))
          \<and> contentRect' (obs_heap w2 ob) = contentRect' (obs_heap w ob)"
    if "ob \<in> set (activeObservations' (spi_heap w this))" for ob
  proof -
    from that alloc have "ob < obs_next w1" by (simp add: w1)
    with fr have "obs_heap w2 ob = obs_heap w1 ob" by simp
    with that show ?thesis by (simp add: w1 broadcastRect_def Let_def)
  qed
  have c: "activeObservations' (spi_heap w2 this) = activeObservations' (spi_heap w this)
          \<and> hasActive this w2"
    if "Disconnect this \<notin> set (callback_actions env cbs this w)"
  proof -
    from that fr have "activeObservations' (spi_heap w2 this) = activeObservations' (spi_heap w1 this)"
      by simp
    with assms(2) show ?thesis by (simp add: w1 hasActive_def)
  qed
  show ?thesis using a b c by blast
qed

theorem broadcastActive_callback_throws_witness:
  "thrown (broadcastActive env0 cbs_throw thr0 0 world1g) = Some (Thrown 7)
   \<and> broadcastWidth (obs_heap (world_of (broadcastActive env0 cbs_throw thr0 0 world1g)) 0) = Some 100
   \<and> broadcastHeight (obs_heap (world_of (broadcastActive env0 cbs_throw thr0 0 world1g)) 0) = Some 50
   \<and> hasActive 0 (world_of (broadcastActive env0 cbs_throw thr0 0 world1g))"
proof -
  have act: "activeObservations' (spi_heap world1g 0) = [0]"
    by (simp add: eval_defs world1g_def)
  have h1: "registry_wf env0 world1g"
    unfolding world1g_def world1_def world0_def
    by (intro gatherActive_wf observe_wf initial_world_wf)
  have h2: "hasActive 0 world1g"
    by (simp add: act hasActive_def)
  have h3: "callback_run env0 cbs_throw thr0 0 world1g = Inl (Thrown 7, callback_state env0 0 world1g)"
    by (simp add: callback_run_def callback_actions_def cbs_throw_def)
  have rect: "contentRect' (obs_heap world1g 0) = rect0"
    by (simp add: eval_defs world1g_def)
  have na: "Disconnect 0 \<notin> set (callback_actions env0 cbs_throw 0 world1g)"
    by (simp add: callback_actions_def cbs_throw_def)
  from broadcastActive_callback_throws [OF h1 h2 h3] act rect na
  show ?thesis by (simp add: thrown_def world_of_def rect0_def)
qed

text \<open>
  C10. In a well-formed state, \<open>unobserve\<close> of a registered element returns, the element
  is no longer in the registry, and the list of active observations is what it was;
  \<open>disconnect\<close>, in contrast, empties that list. So the entries that a following
  \<open>broadcastActive\<close> builds and hands to the callback are those of all the observations
  that were active, the one of the element just removed among them.
\<close>

theorem unobserve_keeps_active:
  assumes "registry_wf env w"
    and "Map_has (observations' (spi_heap w this)) e"
  shows "thrown (unobserve env this (Element e # rest) w) = None
    \<and> \<not> Map_has (observations' (spi_heap (world_of (unobserve env this (Element e # rest) w)) this)) e
    \<and> activeObservations' (spi_heap (world_of (unobserve env this (Element e # rest) w)) this)
        = activeObservations' (spi_heap w this)
    \<and> callback_entries env this (world_of (unobserve env this (Element e # rest) w))
        = map (\<lambda>ob. new_ResizeObserverEntry env (target (obs_heap w ob)) (contentRect' (obs_heap w ob)))
            (activeObservations' (spi_heap w this))
    \<and> (\<forall>ob \<in> set (activeObservations' (spi_heap w this)).
          target (obs_heap w ob)
            \<in> entry_target ` set (callback_entries env this
                                     (world_of (unobserve env this (Element e # rest) w))))
    \<and> broadcastActive env cbs thr this (world_of (unobserve env this (Element e # rest) w))
        = (if \<not> hasActive this w then Inr (world_of (unobserve env this (Element e # rest) w))
           else case callback_run env cbs thr this (world_of (unobserve env this (Element e # rest) w)) of
                  Inl x \<Rightarrow> Inl x
                | Inr w2 \<Rightarrow> Inr (clearActive this w2))
    \<and> activeObservations' (spi_heap (disconnect env this w) this) = []"
proof -
  define w1 where "w1 = world_of (unobserve env this (Element e # rest) w)"
  from assms(2) have "observations' (spi_heap w this) \<noteq> []"
    by (auto simp: Map_has_iff)
  moreover from assms(1)
  have "\<not> elementInterface env \<longrightarrow> observations' (spi_heap w this) = []"
    by (simp add: registry_wf_def)
  ultimately have el: "elementInterface env" by blast
  from assms(1) have dist: "distinct (map fst (observations' (spi_heap w this)))"
    by (simp add: registry_wf_def)
  have nothrow: "thrown (unobserve env this (Element e # rest) w) = None"
    using el assms(2) by (simp add: unobserve_def thrown_def Let_def)
  have reg: "observations' (spi_heap w1 this) = Map_delete (observations' (spi_heap w this)) e"
    using el assms(2) by (simp add: w1_def unobserve_def world_of_def Let_def)
  have gone: "\<not> Map_has (observations' (spi_heap w1 this)) e"
    unfolding reg using dist by (rule Map_delete_removes)
  have act: "activeObservations' (spi_heap w1 this) = activeObservations' (spi_heap w this)"
    using unobserve_frame [of env this "Element e # rest" w this] by (simp add: w1_def)
  have heap: "obs_heap w1 = obs_heap w"
    using unobserve_frame [of env this "Element e # rest" w this] by (simp add: w1_def)
  have ent: "callback_entries env this w1
        = map (\<lambda>ob. new_ResizeObserverEntry env (target (obs_heap w ob)) (contentRect' (obs_heap w ob)))
            (activeObservations' (spi_heap w this))"
    by (simp add: callback_entries_def map_entries_eq act heap)
  have inc: "\<forall>ob \<in> set (activeObservations' (spi_heap w this)).
          target (obs_heap w ob) \<in> entry_target ` set (callback_entries env this w1)"
    unfolding ent by (force simp: new_ResizeObserverEntry_def)
  have has: "hasActive this w1 = hasActive this w"
    by (simp add: hasActive_def act)
  have bc: "broadcastActive env cbs thr this w1
        = (if \<not> hasActive this w then Inr w1
           else case callback_run env cbs thr this w1 of
                  Inl x \<Rightarrow> Inl x
                | Inr w2 \<Rightarrow> Inr (clearActive this w2))"
    by (simp add: broadcastActive_unfold has)
  have dis: "activeObservations' (spi_heap (disconnect env this w) this) = []"
    using disconnect_frame [of env this w this] by simp
  show ?thesis
    using nothrow gone act ent inc bc dis unfolding w1_def by blast
qed

theorem unobserve_keeps_active_witness:
  "\<not> Map_has (observations' (spi_heap (world_of (unobserve env0 0 [Element 1] world1g)) 0)) 1
   \<and> activeObservations' (spi_heap (world_of (unobserve env0 0 [Element 1] world1g)) 0) = [0]
   \<and> map entry_target (callback_entries env0 0 (world_of (unobserve env0 0 [Element 1] world1g))) = [1]
   \<and> activeObservations' (spi_heap (disconnect env0 0 world1g) 0) = []"
proof -
  have h1: "registry_wf env0 world1g"
    unfolding world1g_def world1_def world0_def
    by (intro gatherActive_wf observe_wf initial_world_wf)
  have reg: "observations' (spi_heap world1g 0) = [(1, 0)]" by (simp add: eval_defs world1g_def)
  have h2: "Map_has (observations' (spi_heap world1g 0)) 1" by (simp add: reg Map_has_iff)
  have act: "activeObservations' (spi_heap world1g 0) = [0]" by (simp add: eval_defs world1g_def)
  have tgt: "target (obs_heap world1g 0) = 1" by (simp add: eval_defs world1g_def)
  from unobserve_keeps_active [OF h1 h2, of "[]" cbs_none thr0] act tgt
  show ?thesis by (simp add: new_ResizeObserverEntry_def)
qed

section \<open>The controller's list and its subscriptions\<close>

lemma connect'_observers [simp]: "observers' (controller (connect' env w)) = observers' (controller w)"
  by (simp add: connect'_def Let_def split: prod.splits)

lemma disconnect'_observers [simp]: "observers' (controller (disconnect' env w)) = observers' (controller w)"
  by (simp add: disconnect'_def Let_def)

lemma addObserver_observers:
  "observers' (controller (addObserver env observer w)) =
     (if observer \<in> set (observers' (controller w)) then observers' (controller w)
      else observers' (controller w) @ [observer])"
  by (simp add: addObserver_def Let_def indexOf_absent)

lemma removeObserver_observers:
  "observers' (controller (removeObserver env observer w)) = remove1 observer (observers' (controller w))"
  by (simp add: removeObserver_def Let_def indexOf_absent splice1_indexOf remove1_idem)

lemma MutationObserver_observe_eq:
  "MutationObserver_observe m node h = h\<lparr>mutation_observed := observe_step m node (mutation_observed h)\<rparr>"
  by (simp add: MutationObserver_observe_def observe_step_def)

lemma fold_MutationObserver_observe:
  "fold (MutationObserver_observe m) nodes h =
     h\<lparr>mutation_observed := fold (observe_step m) nodes (mutation_observed h)\<rparr>"
  by (induction nodes arbitrary: h) (simp_all add: MutationObserver_observe_eq)

lemma observe_step_fst:
  "\<forall>p \<in> set recs. fst p = m \<Longrightarrow> \<forall>p \<in> set (fold (observe_step m) nodes recs). fst p = m"
proof (induction nodes arbitrary: recs)
  case Nil
  then show ?case by simp
next
  case (Cons node nodes)
  from Cons.prems have "\<forall>p \<in> set (observe_step m node recs). fst p = m"
    by (simp add: observe_step_def)
  from Cons.IH [OF this] show ?case by simp
qed

lemma observing_disconnect: "filter (\<lambda>p. fst p \<noteq> m) (observing m nodes) = []"
  using observe_step_fst [of "[]" m nodes] by (simp add: observing_def filter_empty_conv)

lemma connect'_subscribes:
  assumes "isBrowser env" "\<not> connected' (controller w)" "unsubscribed (host w)"
    "mutationsObserver' (controller w) = None" "\<not> mutationEventsAdded' (controller w)"
  shows "connected' (controller (connect' env w))
    \<and> subscribed env (controller (connect' env w)) (host (connect' env w))
    \<and> (mutationEventsAdded' (controller (connect' env w)) \<longleftrightarrow> \<not> mutationObserverSupported env)
    \<and> mutation_observers_created (host (connect' env w))
        = (if mutationObserverSupported env then Suc (mutation_observers_created (host w))
           else mutation_observers_created (host w))"
  using assms
  by (simp add: connect'_def Let_def unsubscribed_def subscribed_def addEventListener_def
      new_MutationObserver_def MutationObserver_observe_eq fold_MutationObserver_observe
      observing_def split: prod.splits)

lemma disconnect'_unsubscribes:
  assumes "isBrowser env" "connected' (controller w)" "subscribed env (controller w) (host w)"
    "mutationEventsAdded' (controller w) \<longleftrightarrow> \<not> mutationObserverSupported env"
  shows "\<not> connected' (controller (disconnect' env w))
    \<and> unsubscribed (host (disconnect' env w))
    \<and> mutationsObserver' (controller (disconnect' env w)) = None
    \<and> \<not> mutationEventsAdded' (controller (disconnect' env w))
    \<and> mutation_observers_created (host (disconnect' env w)) = mutation_observers_created (host w)"
  using assms
  by (auto simp: disconnect'_def Let_def unsubscribed_def subscribed_def removeEventListener_def
      MutationObserver_disconnect_def observing_disconnect split: option.splits if_splits)

lemma addObserver_inv:
  assumes "isBrowser env" "controller_inv env w"
  shows "controller_inv env (addObserver env observer w)
    \<and> mutation_observers_created (host (addObserver env observer w))
        = mutation_observers_created (host w)
          + (if observers' (controller w) = [] \<and> mutationObserverSupported env then 1 else 0)
    \<and> (observers' (controller w) \<noteq> [] \<longrightarrow> host (addObserver env observer w) = host w)
    \<and> (observer \<in> set (observers' (controller w)) \<longrightarrow> addObserver env observer w = w)"
proof -
  define w1 where "w1 = (if observer \<notin> set (observers' (controller w))
                then w\<lparr>controller := (controller w)\<lparr>observers' := observers' (controller w) @ [observer]\<rparr>\<rparr>
                else w)"
  have add: "addObserver env observer w = (if \<not> connected' (controller w1) then connect' env w1 else w1)"
    by (simp add: addObserver_def Let_def w1_def indexOf_absent)
  have f1: "connected' (controller w1) = connected' (controller w)" "host w1 = host w"
    "mutationsObserver' (controller w1) = mutationsObserver' (controller w)"
    "mutationEventsAdded' (controller w1) = mutationEventsAdded' (controller w)"
    "observers' (controller w1) \<noteq> []"
    by (auto simp: w1_def)
  have d1: "distinct (observers' (controller w1))"
    using assms(2) by (simp add: w1_def controller_inv_def)
  have sub1: "subscribed env (controller w1) h = subscribed env (controller w) h" for h
    by (simp add: subscribed_def f1)
  show ?thesis
  proof (cases "connected' (controller w)")
    case True
    with assms(2) have ne: "observers' (controller w) \<noteq> []" by (simp add: controller_inv_def)
    from True have res: "addObserver env observer w = w1" by (simp add: add f1)
    have "controller_inv env w1"
      using assms(2) True d1 by (simp add: controller_inv_def f1 sub1)
    moreover have "observer \<in> set (observers' (controller w)) \<longrightarrow> w1 = w" by (simp add: w1_def)
    ultimately show ?thesis using ne by (simp add: res f1)
  next
    case False
    with assms(2) have e: "observers' (controller w) = []"
      and u: "unsubscribed (host w)" "mutationsObserver' (controller w) = None"
        "\<not> mutationEventsAdded' (controller w)"
      by (simp_all add: controller_inv_def)
    from False have res: "addObserver env observer w = connect' env w1" by (simp add: add f1)
    from False u have "\<not> connected' (controller w1)" "unsubscribed (host w1)"
      "mutationsObserver' (controller w1) = None" "\<not> mutationEventsAdded' (controller w1)"
      by (simp_all add: f1)
    from connect'_subscribes [OF assms(1) this] d1 f1(5) e
    show ?thesis by (simp add: res controller_inv_def f1)
  qed
qed

lemma removeObserver_inv:
  assumes "isBrowser env" "controller_inv env w"
  shows "controller_inv env (removeObserver env observer w)
    \<and> mutation_observers_created (host (removeObserver env observer w))
        = mutation_observers_created (host w)"
proof -
  define w1 where "w1 = (if observer \<in> set (observers' (controller w))
                then w\<lparr>controller := (controller w)\<lparr>observers' := remove1 observer (observers' (controller w))\<rparr>\<rparr>
                else w)"
  have rem: "removeObserver env observer w =
               (if length (observers' (controller w1)) = 0 \<and> connected' (controller w1)
                then disconnect' env w1 else w1)"
    by (simp add: removeObserver_def Let_def w1_def indexOf_absent splice1_indexOf)
  have f1: "connected' (controller w1) = connected' (controller w)" "host w1 = host w"
    "mutationsObserver' (controller w1) = mutationsObserver' (controller w)"
    "mutationEventsAdded' (controller w1) = mutationEventsAdded' (controller w)"
    "observers' (controller w1) = remove1 observer (observers' (controller w))"
    by (auto simp: w1_def remove1_idem)
  have d1: "distinct (observers' (controller w1))"
    using assms(2) by (simp add: f1 controller_inv_def)
  have sub1: "subscribed env (controller w1) h = subscribed env (controller w) h" for h
    by (simp add: subscribed_def f1)
  show ?thesis
  proof (cases "observers' (controller w1) = [] \<and> connected' (controller w)")
    case True
    then have res: "removeObserver env observer w = disconnect' env w1" by (simp add: rem f1)
    from True assms(2) have "connected' (controller w1)"
      "subscribed env (controller w1) (host w1)"
      "mutationEventsAdded' (controller w1) \<longleftrightarrow> \<not> mutationObserverSupported env"
      by (simp_all add: controller_inv_def f1 sub1)
    from disconnect'_unsubscribes [OF assms(1) this] True
    show ?thesis by (simp add: res controller_inv_def f1)
  next
    case False
    then have res: "removeObserver env observer w = w1" by (auto simp: rem f1)
    have "observers' (controller w1) = [] \<longleftrightarrow> observers' (controller w) = []"
      using False assms(2) by (auto simp: controller_inv_def f1)
    then have "controller_inv env w1"
      using assms(2) d1 by (simp add: controller_inv_def f1(1-4) sub1)
    then show ?thesis by (simp add: res f1)
  qed
qed

lemma initial_world_inv: "controller_inv env (initial_world env layout doc t)"
  by (simp add: controller_inv_def initial_world_def new_ResizeObserverController_def
      unsubscribed_def)

lemma run_calls_inv:
  assumes "isBrowser env"
  shows "controller_inv env w \<Longrightarrow>
     controller_inv env (run_calls env calls w)
     \<and> (mutationObserverSupported env \<longrightarrow>
          mutation_observers_created (host (run_calls env calls w))
            = mutation_observers_created (host w) + transitions (observers' (controller w)) calls)"
proof (induction calls arbitrary: w)
  case Nil
  then show ?case by simp
next
  case (Cons call calls)
  show ?case
  proof (cases call)
    case (AddObserver observer)
    note a = addObserver_inv [OF assms Cons.prems, of observer]
    from a have "controller_inv env (addObserver env observer w)" by simp
    from Cons.IH [OF this] a show ?thesis
      by (simp add: AddObserver addObserver_observers)
  next
    case (RemoveObserver observer)
    note r = removeObserver_inv [OF assms Cons.prems, of observer]
    from r have "controller_inv env (removeObserver env observer w)" by simp
    from Cons.IH [OF this] r show ?thesis
      by (simp add: RemoveObserver removeObserver_observers)
  qed
qed

lemma connect'_outside_browser: "\<not> isBrowser env \<Longrightarrow> connect' env w = w"
  by (simp add: connect'_def)

lemma disconnect'_outside_browser: "\<not> isBrowser env \<Longrightarrow> disconnect' env w = w"
  by (simp add: disconnect'_def)

lemma addObserver_outside_browser:
  "\<not> isBrowser env \<Longrightarrow>
     host (addObserver env observer w) = host w
     \<and> connected' (controller (addObserver env observer w)) = connected' (controller w)"
  by (simp add: addObserver_def Let_def connect'_outside_browser)

lemma removeObserver_outside_browser:
  "\<not> isBrowser env \<Longrightarrow>
     host (removeObserver env observer w) = host w
     \<and> connected' (controller (removeObserver env observer w)) = connected' (controller w)"
  by (simp add: removeObserver_def Let_def disconnect'_outside_browser)

lemma run_calls_outside_browser:
  assumes "\<not> isBrowser env"
  shows "host (run_calls env calls w) = host w
     \<and> connected' (controller (run_calls env calls w)) = connected' (controller w)"
proof (induction calls arbitrary: w)
  case Nil
  show ?case by simp
next
  case (Cons call calls)
  show ?case
  proof (cases call)
    case (AddObserver observer)
    with Cons.IH [of "addObserver env observer w"]
      addObserver_outside_browser [OF assms, of observer w]
    show ?thesis by simp
  next
    case (RemoveObserver observer)
    with Cons.IH [of "removeObserver env observer w"]
      removeObserver_outside_browser [OF assms, of observer w]
    show ?thesis by simp
  qed
qed

text \<open>
  C7, as stated, fails outside a browser: \<open>connect'\<close> returns at its first test, so the
  first observer is added to the list and nothing is subscribed.
\<close>

theorem addObserver_subscriptions_counterexample:
  "\<not> isBrowser env_nb
   \<and> \<not> origAttachShadow env_nb
   \<and> observers' (controller world0) = []
   \<and> observers' (controller (addObserver env_nb 0 world0)) = [0]
   \<and> unsubscribed (host (addObserver env_nb 0 world0))
   \<and> \<not> connected' (controller (addObserver env_nb 0 world0))"
  by (simp add: eval_defs env_nb_def unsubscribed_def)

text \<open>
  C7, amended. In every environment, \<open>addObserver\<close> of an observer that is in the list
  leaves the list as it is. In a browser, after any calls of \<open>addObserver\<close> and
  \<open>removeObserver\<close> on the controller as first made: the list has no duplicates; the host
  holds no subscription when the list is empty and exactly one set of subscriptions when
  it is not; where the host has MutationObserver, as many observers have been made as the
  list went from empty to non-empty; adding an observer that is in the list changes
  nothing at all, adding any observer to a non-empty list leaves the host as it is, adding
  one to the empty list subscribes, and removing the last observer leaves the host without
  subscriptions. Outside a browser \<open>connect'\<close> returns the state as it is: no call of
  \<open>addObserver\<close> or \<open>removeObserver\<close> changes the host or \<open>connected'\<close>, and after any
  such calls on the controller as first made nothing is subscribed.
\<close>

theorem controller_subscribes_once:
  "(observer \<in> set (observers' (controller w0)) \<longrightarrow>
      observers' (controller (addObserver env observer w0)) = observers' (controller w0))
   \<and> (isBrowser env \<longrightarrow>
        (let w = run_calls env calls (initial_world env layout doc t) in
           distinct (observers' (controller w))
           \<and> (observers' (controller w) = [] \<longrightarrow> unsubscribed (host w))
           \<and> (observers' (controller w) \<noteq> [] \<longrightarrow> subscribed env (controller w) (host w))
           \<and> (mutationObserverSupported env \<longrightarrow>
                 mutation_observers_created (host w) = transitions [] calls)
           \<and> (observer \<in> set (observers' (controller w)) \<longrightarrow> addObserver env observer w = w)
           \<and> (observers' (controller w) \<noteq> [] \<longrightarrow> host (addObserver env observer w) = host w)
           \<and> (observers' (controller w) = [] \<longrightarrow>
                 subscribed env (controller (addObserver env observer w))
                   (host (addObserver env observer w)))
           \<and> (observers' (controller w) = [observer] \<longrightarrow>
                 unsubscribed (host (removeObserver env observer w)))))
   \<and> (\<not> isBrowser env \<longrightarrow>
        connect' env w0 = w0
        \<and> host (addObserver env observer w0) = host w0
        \<and> connected' (controller (addObserver env observer w0)) = connected' (controller w0)
        \<and> host (run_calls env calls w0) = host w0
        \<and> connected' (controller (run_calls env calls w0)) = connected' (controller w0)
        \<and> unsubscribed (host (run_calls env calls (initial_world env layout doc t)))
        \<and> \<not> connected' (controller (run_calls env calls (initial_world env layout doc t))))"
proof -
  have sets: "observer \<in> set (observers' (controller w0)) \<longrightarrow>
      observers' (controller (addObserver env observer w0)) = observers' (controller w0)"
    by (simp add: addObserver_observers)
  have browser:
    "let w = run_calls env calls (initial_world env layout doc t) in
           distinct (observers' (controller w))
           \<and> (observers' (controller w) = [] \<longrightarrow> unsubscribed (host w))
           \<and> (observers' (controller w) \<noteq> [] \<longrightarrow> subscribed env (controller w) (host w))
           \<and> (mutationObserverSupported env \<longrightarrow>
                 mutation_observers_created (host w) = transitions [] calls)
           \<and> (observer \<in> set (observers' (controller w)) \<longrightarrow> addObserver env observer w = w)
           \<and> (observers' (controller w) \<noteq> [] \<longrightarrow> host (addObserver env observer w) = host w)
           \<and> (observers' (controller w) = [] \<longrightarrow>
                 subscribed env (controller (addObserver env observer w))
                   (host (addObserver env observer w)))
           \<and> (observers' (controller w) = [observer] \<longrightarrow>
                 unsubscribed (host (removeObserver env observer w)))"
    if b: "isBrowser env"
  proof -
    define w where "w = run_calls env calls (initial_world env layout doc t)"
    have inv: "controller_inv env w"
      and cnt: "mutationObserverSupported env \<longrightarrow>
                  mutation_observers_created (host w) = transitions [] calls"
      using run_calls_inv [OF b initial_world_inv, of calls layout doc t]
      by (simp_all add: w_def initial_world_def new_ResizeObserverController_def)
    note a = addObserver_inv [OF b inv, of observer]
    note r = removeObserver_inv [OF b inv, of observer]
    have p1: "distinct (observers' (controller w))"
      and p2: "observers' (controller w) = [] \<longrightarrow> unsubscribed (host w)"
      and p3: "observers' (controller w) \<noteq> [] \<longrightarrow> subscribed env (controller w) (host w)"
      using inv by (auto simp: controller_inv_def)
    have p7: "observers' (controller w) = [] \<longrightarrow>
                  subscribed env (controller (addObserver env observer w))
                    (host (addObserver env observer w))"
      using a by (auto simp: controller_inv_def addObserver_observers)
    have p8: "observers' (controller w) = [observer] \<longrightarrow>
                  unsubscribed (host (removeObserver env observer w))"
      using r by (auto simp: controller_inv_def removeObserver_observers)
    show ?thesis
      unfolding Let_def w_def [symmetric] using p1 p2 p3 cnt a p7 p8 by blast
  qed
  have outside:
    "connect' env w0 = w0
        \<and> host (addObserver env observer w0) = host w0
        \<and> connected' (controller (addObserver env observer w0)) = connected' (controller w0)
        \<and> host (run_calls env calls w0) = host w0
        \<and> connected' (controller (run_calls env calls w0)) = connected' (controller w0)
        \<and> unsubscribed (host (run_calls env calls (initial_world env layout doc t)))
        \<and> \<not> connected' (controller (run_calls env calls (initial_world env layout doc t)))"
    if nb: "\<not> isBrowser env"
  proof -
    have i: "unsubscribed (host (initial_world env layout doc t))"
      "\<not> connected' (controller (initial_world env layout doc t))"
      by (simp_all add: initial_world_def unsubscribed_def new_ResizeObserverController_def)
    from connect'_outside_browser [OF nb, of w0]
      addObserver_outside_browser [OF nb, of observer w0]
      run_calls_outside_browser [OF nb, of calls w0]
      run_calls_outside_browser [OF nb, of calls "initial_world env layout doc t"] i
    show ?thesis by simp
  qed
  from sets browser outside show ?thesis by blast
qed

theorem controller_subscribes_once_witness:
  "(let w = run_calls env0 [AddObserver 0, AddObserver 1, AddObserver 0, RemoveObserver 0] world0 in
      observers' (controller w) = [1]
      \<and> subscribed env0 (controller w) (host w)
      \<and> mutation_observers_created (host w) = 1
      \<and> addObserver env0 1 w = w
      \<and> unsubscribed (host (removeObserver env0 1 w)))
   \<and> observers' (controller world0) = []
   \<and> unsubscribed (host world0)
   \<and> subscribed env0 (controller (addObserver env0 1 world0)) (host (addObserver env0 1 world0))
   \<and> observers' (controller (addObserver env0 1 (addObserver env0 1 world0)))
       = observers' (controller (addObserver env0 1 world0))
   \<and> \<not> isBrowser env_nb
   \<and> connect' env_nb world0 = world0
   \<and> observers' (controller (run_calls env_nb [AddObserver 0, AddObserver 1] world0)) = [0, 1]
   \<and> host (run_calls env_nb [AddObserver 0, AddObserver 1] world0) = host world0
   \<and> \<not> connected' (controller (run_calls env_nb [AddObserver 0, AddObserver 1] world0))"
proof -
  define w where "w = run_calls env0 [AddObserver 0, AddObserver 1, AddObserver 0, RemoveObserver 0] world0"
  define wn where "wn = run_calls env_nb [AddObserver 0, AddObserver 1] world0"
  define wa where "wa = addObserver env0 1 world0"
  have b: "isBrowser env0" by (simp add: env0_def)
  have nb: "\<not> isBrowser env_nb" by (simp add: env_nb_def env0_def)
  have m: "mutationObserverSupported env0" by (simp add: env0_def)
  have o0: "observers' (controller world0) = []"
    by (simp add: world0_def initial_world_def new_ResizeObserverController_def)
  have c0': "\<not> connected' (controller world0)"
    by (simp add: world0_def initial_world_def new_ResizeObserverController_def)
  have o: "observers' (controller w) = [1]"
    unfolding w_def by (simp add: addObserver_observers removeObserver_observers o0)
  have on: "observers' (controller wn) = [0, 1]"
    unfolding wn_def by (simp add: addObserver_observers o0)
  have oa: "1 \<in> set (observers' (controller wa))"
    unfolding wa_def by (simp add: addObserver_observers o0)
  have t: "transitions [] [AddObserver 0, AddObserver 1, AddObserver 0, RemoveObserver 0] = 1"
    by simp
  note c = controller_subscribes_once [where env = env0 and observer = 1 and ?w0.0 = wa
      and calls = "[AddObserver 0, AddObserver 1, AddObserver 0, RemoveObserver 0]"
      and layout = "\<lambda>e. rect0" and doc = doc0 and t = "0::nat",
      folded world0_def, unfolded Let_def, folded w_def, unfolded t]
  note c0 = controller_subscribes_once [where env = env0 and observer = 1 and ?w0.0 = world0
      and calls = "[]" and layout = "\<lambda>e. rect0" and doc = doc0 and t = "0::nat",
      folded world0_def, unfolded Let_def run_calls.simps]
  note cn = controller_subscribes_once [where env = env_nb and observer = 1 and ?w0.0 = world0
      and calls = "[AddObserver 0, AddObserver 1]"
      and layout = "\<lambda>e. rect0" and doc = doc0 and t = "0::nat", folded wn_def]
  from c c0 cn b nb m o o0 c0' on oa show ?thesis
    unfolding Let_def w_def [symmetric] wn_def [symmetric] wa_def [symmetric] by simp
qed

section \<open>Reachable states\<close>

lemma controller_inv_stable:
  assumes "isBrowser env"
  shows "stable env thr (controller_inv env)"
  unfolding stable_def
proof (intro allI impI conjI)
  fix w :: "'a world" and e rect r args
  assume w: "controller_inv env w"
  have upd: "controller_inv env (w\<lparr>spi_heap := sh, obs_heap := oh, obs_next := n\<rparr>)" for sh oh n
    using w by (simp add: controller_inv_def)
  have add: "controller_inv env (addObserver env r w1)" if "controller_inv env w1" for w1 :: "'a world"
    using addObserver_inv [OF assms that] by simp
  have rem: "controller_inv env (removeObserver env r w1)" if "controller_inv env w1" for w1 :: "'a world"
    using removeObserver_inv [OF assms that] by simp
  show "controller_inv env (world_of (observe env thr r args w))"
  proof (cases "\<exists>e rest. args = Element e # rest \<and> elementInterface env
                \<and> \<not> Map_has (observations' (spi_heap w r)) e")
    case False
    then have "world_of (observe env thr r args w) = w"
      by (auto simp: observe_def world_of_def Let_def split: list.splits jsvalue.splits)
    with w show ?thesis by simp
  next
    case True
    then obtain e rest where a: "args = Element e # rest" "elementInterface env"
      "\<not> Map_has (observations' (spi_heap w r)) e" by blast
    define w2 where "w2 = w\<lparr>obs_heap := (obs_heap w)(obs_next w := new_ResizeObservation env e),
        obs_next := Suc (obs_next w),
        spi_heap := (spi_heap w)(r := (spi_heap w r)
           \<lparr>observations' := Map_set (observations' (spi_heap w r)) e (obs_next w)\<rparr>)\<rparr>"
    have "controller_inv env w2" using w by (simp add: w2_def controller_inv_def)
    then have "controller_inv env (addObserver env r w2)" by (rule add)
    then have "controller_inv env (this_refresh thr (addObserver env r w2))"
      by (simp add: controller_inv_def this_refresh_def)
    moreover have "world_of (observe env thr r args w) = this_refresh thr (addObserver env r w2)"
      using a by (simp add: observe_def world_of_def Let_def new_observation_def w2_def)
    ultimately show ?thesis by simp
  qed
  show "controller_inv env (world_of (unobserve env r args w))"
  proof (cases "\<exists>e rest. args = Element e # rest \<and> elementInterface env
                \<and> Map_has (observations' (spi_heap w r)) e")
    case False
    then have "world_of (unobserve env r args w) = w"
      by (auto simp: unobserve_def world_of_def Let_def split: list.splits jsvalue.splits)
    with w show ?thesis by simp
  next
    case True
    then obtain e rest where a: "args = Element e # rest" "elementInterface env"
      "Map_has (observations' (spi_heap w r)) e" by blast
    define w1 where "w1 = w\<lparr>spi_heap := (spi_heap w)(r := (spi_heap w r)
           \<lparr>observations' := Map_delete (observations' (spi_heap w r)) e\<rparr>)\<rparr>"
    have i1: "controller_inv env w1" using w by (simp add: w1_def controller_inv_def)
    then have i2: "controller_inv env (removeObserver env r w1)" by (rule rem)
    have "world_of (unobserve env r args w) = removeObserver env r w1
          \<or> world_of (unobserve env r args w) = w1"
      using a by (simp add: unobserve_def world_of_def Let_def w1_def)
    with i1 i2 show ?thesis by auto
  qed
  show "controller_inv env (disconnect env r w)"
  proof -
    define w2 where "w2 = (clearActive r w)\<lparr>spi_heap := (spi_heap (clearActive r w))
                 (r := (spi_heap (clearActive r w) r)
                    \<lparr>observations' := Map_clear (observations' (spi_heap (clearActive r w) r))\<rparr>)\<rparr>"
    have "controller_inv env w2" using w by (simp add: w2_def clearActive_def controller_inv_def)
    then have "controller_inv env (removeObserver env r w2)" by (rule rem)
    then show ?thesis by (simp add: disconnect_def Let_def w2_def)
  qed
  show "controller_inv env (gatherActive r w)"
    using w gatherActive_frame [of r w] by (simp add: controller_inv_def)
  show "controller_inv env (clearActive r w)"
    using w by (simp add: clearActive_def controller_inv_def)
  show "controller_inv env (callback_state env r w)"
    using w by (simp add: callback_state_def map_entries_eq controller_inv_def)
  show "controller_inv env (this_refresh thr w)"
    using w by (simp add: controller_inv_def this_refresh_def)
  show "controller_inv env (w\<lparr>getContentRect := (getContentRect w)(e := rect)\<rparr>)"
    using w by (simp add: controller_inv_def)
qed

text \<open>
  Whatever happens to the system, from its initial state on, the registries stay
  well-formed and, in a browser, the controller keeps its invariant: it is connected, with
  exactly one set of subscriptions, when its list is not empty, and not subscribed at all
  when the list is empty.
\<close>

lemma reachable_invariants:
  "registry_wf env (run_events env cbs thr events (initial_world env layout doc t))"
  "isBrowser env \<Longrightarrow>
     controller_inv env (run_events env cbs thr events (initial_world env layout doc t))"
proof -
  show "registry_wf env (run_events env cbs thr events (initial_world env layout doc t))"
    by (rule reachable_registry_wf)
  assume "isBrowser env"
  then have "stable env thr (controller_inv env)" by (rule controller_inv_stable)
  then show "controller_inv env (run_events env cbs thr events (initial_world env layout doc t))"
    using initial_world_inv by (rule run_events_stable)
qed

end
